theory Spec2Isabelle
  imports Complex_Main "HOL-Library.Monad_Syntax"
begin

section \<open>Weighted PageRank (pageRank.c): data model\<close>

text \<open>
  The C type \<open>double\<close> is modelled by \<^typ>\<open>real\<close>: the arithmetic is the exact one,
  rounding is not modelled. A division by 0 yields an infinity or a NaN in C and has the
  value 0 in HOL; the engine divides by \<open>N\<close> (for each cell of the list, so that \<open>N\<close> is
  not 0 on a well-formed list), by the total of \<open>calculateWin\<close> and by the total of
  \<open>calculateWout\<close>, and the lemmas \<open>Win_denominator_pos\<close> and \<open>Wout_denominator_pos\<close> show
  that these totals are not 0. The \<open>int\<close> values are modelled by \<^typ>\<open>nat\<close> (indices
  and the number of vertices, which the source never lets be negative) and by \<^typ>\<open>int\<close>
  (the loop counter \<open>i\<close>, which stays below \<open>maxIterations\<close>, and the result of
  \<open>getUrlIndex\<close>): no operation of the source on them can overflow. A result \<open>None\<close>
  of a model function stands for a run that aborts: a failed \<open>assert\<close>, the dereference
  of a \<open>NULL\<close> pointer, an access outside the adjacency matrix, \<open>exit(EXIT_FAILURE)\<close>.
\<close>

text \<open>
  Modelled from the spec: the list cell (\<open>struct node\<close> behind \<open>Node\<close>) and the list
  \<open>List\<close>, declared in the absent \<open>List.h\<close>. The fields are the ones of the
  specification's Node (3), under the names pageRank.c reads and writes them by. The
  linked list is the list of its cells in \<open>next\<close> order from \<open>l->head\<close>, and \<open>l->size\<close> is
  its length.
\<close>

record node =
  url :: string
  index :: nat
  rank :: real
  prevRank :: real
  inDegree :: real
  outDegree :: real

text \<open>
  Modelled from the spec: the graph (\<open>struct graph\<close> behind \<open>Graph\<close>) and the \<open>Edge\<close>
  of the absent \<open>Graph.h\<close>. The specification's Graph (3) has \<open>N\<close> nodes and the edge
  relation \<open>edges[i][j]\<close>, a weight, 0 meaning "no edge"; pageRank.c reads them as
  \<open>g->nV\<close> and \<open>g->edges[v][w]\<close>. The matrix is a function of the two indices here, and
  every access of the model checks the indices against \<open>nV\<close>.
\<close>

record graph =
  nV :: nat
  edges :: "nat \<Rightarrow> nat \<Rightarrow> real"

text \<open>An edge, written \<open>Edge e = {from, to, weight}\<close> in pageRank.c.\<close>

datatype edge = Edge nat nat real

section \<open>The graph operations pageRank.c calls\<close>

text \<open>
  Modelled from the spec: \<open>GraphNew\<close> of the absent \<open>Graph.c\<close>. The spec (3, 4.1): a graph
  of \<open>N\<close> nodes, fixed at construction, whose weight 0 means "no edge"; a new graph has
  no edge.
\<close>

definition GraphNew :: "nat \<Rightarrow> graph" where
  "GraphNew n = \<lparr>nV = n, edges = (\<lambda>a b. 0)\<rparr>"

text \<open>
  Modelled from the spec: \<open>GraphInsertEdge\<close> of the absent \<open>Graph.c\<close>. The spec (4.1):
  \<open>insertEdge(from, to, weight)\<close> fails (or is a no-op) if \<open>from == to\<close>, and the stored
  weight is what \<open>weight(from, to)\<close> returns. The model takes the failing reading, so that
  a caller that returns a graph is known never to have inserted a self-loop; an index
  outside the matrix fails as well.
\<close>

fun GraphInsertEdge :: "graph \<Rightarrow> edge \<Rightarrow> graph option" where
  "GraphInsertEdge g (Edge a b x) =
     (if a = b \<or> \<not> a < nV g \<or> \<not> b < nV g then None
      else Some (g\<lparr>edges := (edges g)(a := (edges g a)(b := x))\<rparr>))"

section \<open>Loops\<close>

text \<open>
  A \<open>for\<close> loop over the values \<open>xs\<close> whose body may abort: the state is threaded
  through the iterations in order, and the first abort ends the run.
\<close>

fun for_loop :: "'i list \<Rightarrow> ('i \<Rightarrow> 's \<Rightarrow> 's option) \<Rightarrow> 's \<Rightarrow> 's option" where
  "for_loop [] body s = Some s"
| "for_loop (x # xs) body s =
     (case body x s of None \<Rightarrow> None | Some s' \<Rightarrow> for_loop xs body s')"

section \<open>pageRank.c\<close>

text \<open>\<open>isAdjacent\<close>: true if \<open>edges[v][w] != 0\<close>.\<close>

definition isAdjacent :: "graph \<Rightarrow> nat \<Rightarrow> nat \<Rightarrow> bool option" where
  "isAdjacent g a b =
     (if a < nV g \<and> b < nV g then Some (edges g a b \<noteq> 0) else None)"

text \<open>
  \<open>getNode\<close>: the assertion \<open>index >= 0 && index < l->size\<close>, then the first cell with
  that index. The source returns \<open>NULL\<close> when there is none, and every caller dereferences
  the result, so that case is an abort of the model too.
\<close>

definition getNode :: "node list \<Rightarrow> nat \<Rightarrow> node option" where
  "getNode l i = (if i < length l then find (\<lambda>n. index n = i) l else None)"

text \<open>\<open>getUrlIndex\<close>: the index of the first cell with that url, or -1.\<close>

definition getUrlIndex :: "node list \<Rightarrow> string \<Rightarrow> int" where
  "getUrlIndex l u =
     (case find (\<lambda>n. url n = u) l of Some n \<Rightarrow> int (index n) | None \<Rightarrow> - 1)"

text \<open>
  \<open>insertEdges\<close>: the argument \<open>toks\<close> is the sequence of strings that
  \<open>fscanf(fp, "%s", url)\<close> delivers after the first line of the file, up to its end.
\<close>

fun insertEdges :: "graph \<Rightarrow> node list \<Rightarrow> string list \<Rightarrow> node \<Rightarrow> graph option" where
  "insertEdges g l [] cur = Some g"
| "insertEdges g l (u # toks) cur =
     (if u = ''#end'' then Some g
      else
        (let outlinkIndex = getUrlIndex l u in
         if outlinkIndex \<ge> 0 \<and> outlinkIndex \<noteq> int (index cur) then
           (case GraphInsertEdge g (Edge (index cur) (nat outlinkIndex) 1) of
              None \<Rightarrow> None
            | Some g' \<Rightarrow> insertEdges g' l toks cur)
         else insertEdges g l toks cur))"

text \<open>
  \<open>createGraph\<close>: \<open>files u\<close> is the token sequence of the file \<open>u.txt\<close>, or \<open>None\<close> when
  \<open>fopen\<close> fails and the program exits.
\<close>

definition createGraph :: "node list \<Rightarrow> (string \<Rightarrow> string list option) \<Rightarrow> graph option" where
  "createGraph l files =
     for_loop l
       (\<lambda>cur g. case files (url cur) of
                    None \<Rightarrow> None
                  | Some toks \<Rightarrow> insertEdges g l toks cur)
       (GraphNew (length l))"

text \<open>\<open>incomingDegree\<close> counts in an \<open>int\<close> and returns it as a \<open>double\<close>.\<close>

definition incomingDegree :: "graph \<Rightarrow> nat \<Rightarrow> real option" where
  "incomingDegree g urlA =
     map_option real
       (for_loop [0..<nV g]
          (\<lambda>urlB degree. do {
             a \<leftarrow> isAdjacent g urlB urlA;
             Some (if a then degree + 1 else degree) })
          (0::nat))"

definition outgoingDegree :: "graph \<Rightarrow> nat \<Rightarrow> real option" where
  "outgoingDegree g urlA =
     for_loop [0..<nV g]
       (\<lambda>urlB degree. do {
          a \<leftarrow> isAdjacent g urlA urlB;
          Some (if a then degree + 1 else degree) })
       (0::real)"

text \<open>\<open>initialiseRankAndDegree\<close>: each cell is written from the graph and its own index.\<close>

fun initialiseRankAndDegree :: "node list \<Rightarrow> graph \<Rightarrow> real \<Rightarrow> node list option" where
  "initialiseRankAndDegree [] g N = Some []"
| "initialiseRankAndDegree (p # ps) g N = do {
     od \<leftarrow> outgoingDegree g (index p);
     ind \<leftarrow> incomingDegree g (index p);
     ps' \<leftarrow> initialiseRankAndDegree ps g N;
     Some (p\<lparr>rank := 1 / N, outDegree := od, inDegree := ind\<rparr> # ps') }"

text \<open>
  \<open>calculateWin\<close>: the loop that fills the local \<open>pjTotalIncomingLinks\<close>, and the
  division that is returned.
\<close>

definition pjTotalIncomingLinks :: "node list \<Rightarrow> graph \<Rightarrow> node \<Rightarrow> real option" where
  "pjTotalIncomingLinks l g pj =
     for_loop [0..<nV g]
       (\<lambda>pjCol total. do {
          a \<leftarrow> isAdjacent g (index pj) pjCol;
          if a then do {
            refPage \<leftarrow> getNode l pjCol;
            Some (total + inDegree refPage) }
          else Some total })
       0"

definition calculateWin :: "node list \<Rightarrow> graph \<Rightarrow> node \<Rightarrow> node \<Rightarrow> real option" where
  "calculateWin l g pj p = do {
     total \<leftarrow> pjTotalIncomingLinks l g pj;
     Some (inDegree p / total) }"

text \<open>
  \<open>calculateWout\<close>: the local \<open>pjTotalOutgoingLinks\<close> after its loop and after the
  replacement of 0 by 0.5, and the division that is returned.
\<close>

definition pjTotalOutgoingLinks :: "node list \<Rightarrow> graph \<Rightarrow> node \<Rightarrow> real option" where
  "pjTotalOutgoingLinks l g pj = do {
     total \<leftarrow> for_loop [0..<nV g]
       (\<lambda>pjCol total. do {
          a \<leftarrow> isAdjacent g (index pj) pjCol;
          if a then do {
            refPage \<leftarrow> getNode l pjCol;
            Some (if outDegree refPage = 0 then total + 0.5
                  else total + outDegree refPage) }
          else Some total })
       0;
     Some (if total = 0 then 0.5 else total) }"

definition calculateWout :: "node list \<Rightarrow> graph \<Rightarrow> node \<Rightarrow> node \<Rightarrow> real option" where
  "calculateWout l g pj p = do {
     let piOutgoingLinks = (if outDegree p = 0 then 0.5 else outDegree p);
     total \<leftarrow> pjTotalOutgoingLinks l g pj;
     Some (piOutgoingLinks / total) }"

definition setGraphWin :: "node list \<Rightarrow> graph \<Rightarrow> graph option" where
  "setGraphWin l g =
     for_loop [0..<nV g]
       (\<lambda>pj. for_loop [0..<nV g]
          (\<lambda>p gWin. do {
             a \<leftarrow> isAdjacent g pj p;
             if a \<and> pj \<noteq> p then do {
               pjNode \<leftarrow> getNode l pj;
               piNode \<leftarrow> getNode l p;
               Win \<leftarrow> calculateWin l g pjNode piNode;
               GraphInsertEdge gWin (Edge pj p Win) }
             else Some gWin }))
       (GraphNew (nV g))"

definition setGraphWout :: "node list \<Rightarrow> graph \<Rightarrow> graph option" where
  "setGraphWout l g =
     for_loop [0..<nV g]
       (\<lambda>pj. for_loop [0..<nV g]
          (\<lambda>p gWout. do {
             a \<leftarrow> isAdjacent g pj p;
             if a \<and> pj \<noteq> p then do {
               pjNode \<leftarrow> getNode l pj;
               piNode \<leftarrow> getNode l p;
               Wout \<leftarrow> calculateWout l g pjNode piNode;
               GraphInsertEdge gWout (Edge pj p Wout) }
             else Some gWout }))
       (GraphNew (nV g))"

text \<open>The read \<open>g->edges[a][b]\<close> of a matrix entry.\<close>

definition readEdge :: "graph \<Rightarrow> nat \<Rightarrow> nat \<Rightarrow> real option" where
  "readEdge g a b = (if a < nV g \<and> b < nV g then Some (edges g a b) else None)"

text \<open>
  \<open>getPageWeight\<close>: the matrices \<open>gWin\<close> and \<open>gWout\<close> are read at
  \<open>[pjIndex][piIndex]\<close>.
\<close>

definition getPageWeight :: "node list \<Rightarrow> graph \<Rightarrow> graph \<Rightarrow> graph \<Rightarrow> node \<Rightarrow> real option" where
  "getPageWeight l g gWin gWout p =
     for_loop [0..<nV g]
       (\<lambda>pjIndex totalWeight. do {
          a \<leftarrow> isAdjacent g pjIndex (index p);
          if a then do {
            pj \<leftarrow> getNode l pjIndex;
            Wout \<leftarrow> readEdge gWout pjIndex (index p);
            Win \<leftarrow> readEdge gWin pjIndex (index p);
            Some (totalWeight + prevRank pj * Wout * Win) }
          else Some totalWeight })
       0"

text \<open>\<open>calculateDiff\<close>.\<close>

definition calculateDiff :: "node list \<Rightarrow> real" where
  "calculateDiff l = foldl (\<lambda>d p. d + \<bar>rank p - prevRank p\<bar>) 0 l"

text \<open>
  The body of the loop of \<open>calculatePageRank\<close>. Its first inner loop stores the rank of
  every cell in its own \<open>prevRank\<close>. Its second inner loop walks the cells in place: the
  cell at position \<open>k\<close> is overwritten in the list that \<open>getPageWeight\<close> reads for the
  cells after it.
\<close>

definition storePrevRank :: "node list \<Rightarrow> node list" where
  "storePrevRank l = map (\<lambda>p. p\<lparr>prevRank := rank p\<rparr>) l"

definition updateRank ::
  "node list \<Rightarrow> graph \<Rightarrow> graph \<Rightarrow> graph \<Rightarrow> real \<Rightarrow> real \<Rightarrow> node list option" where
  "updateRank l g gWin gWout d N =
     for_loop [0..<length l]
       (\<lambda>k l. do {
          weights \<leftarrow> getPageWeight l g gWin gWout (l ! k);
          Some (l[k := (l ! k)\<lparr>rank := (1 - d) / N + d * weights\<rparr>]) })
       l"

definition rankStep ::
  "graph \<Rightarrow> graph \<Rightarrow> graph \<Rightarrow> real \<Rightarrow> real \<Rightarrow> node list \<Rightarrow> node list option" where
  "rankStep g gWin gWout d N l = updateRank (storePrevRank l) g gWin gWout d N"

text \<open>
  The loop \<open>for (int i = 1; i < maxIterations && diff >= diffPR; i++)\<close>, from the state
  \<open>(i, diff, l)\<close>; it returns the state in which the loop condition fails.
\<close>

function pageRankLoop ::
  "graph \<Rightarrow> graph \<Rightarrow> graph \<Rightarrow> real \<Rightarrow> real \<Rightarrow> real \<Rightarrow> int \<Rightarrow> int \<Rightarrow> real \<Rightarrow> node list
     \<Rightarrow> (int \<times> real \<times> node list) option" where
  "pageRankLoop g gWin gWout d N diffPR maxIterations i diff l =
     (if i < maxIterations \<and> diff \<ge> diffPR then
        (case rankStep g gWin gWout d N l of
           None \<Rightarrow> None
         | Some l' \<Rightarrow>
             pageRankLoop g gWin gWout d N diffPR maxIterations (i + 1) (calculateDiff l') l')
      else Some (i, diff, l))"
  by pat_completeness auto
termination
  by (relation "measure (\<lambda>(g, gWin, gWout, d, N, diffPR, maxIterations, i, diff, l).
        nat (maxIterations - i))") auto

declare pageRankLoop.simps [simp del]

text \<open>
  \<open>calculatePageRank\<close>, with the final state of its loop; the source returns the list.
\<close>

definition calculatePageRankState ::
  "node list \<Rightarrow> graph \<Rightarrow> real \<Rightarrow> real \<Rightarrow> int \<Rightarrow> (int \<times> real \<times> node list) option" where
  "calculatePageRankState l g d diffPR maxIterations = do {
     let N = real (nV g);
     l1 \<leftarrow> initialiseRankAndDegree l g N;
     gWin \<leftarrow> setGraphWin l1 g;
     gWout \<leftarrow> setGraphWout l1 g;
     pageRankLoop g gWin gWout d N diffPR maxIterations 1 diffPR l1 }"

definition calculatePageRank ::
  "node list \<Rightarrow> graph \<Rightarrow> real \<Rightarrow> real \<Rightarrow> int \<Rightarrow> node list option" where
  "calculatePageRank l g d diffPR maxIterations =
     map_option (\<lambda>(i, diff, l'). l') (calculatePageRankState l g d diffPR maxIterations)"

section \<open>Inputs of the engine, and what the specification says it computes\<close>

text \<open>
  The node list of a run: one cell for each index below \<open>n\<close>, in any order. This is what
  the specification asks of the indices (dense in \<open>[0, N)\<close>, one per node).
\<close>

definition wf_list :: "node list \<Rightarrow> nat \<Rightarrow> bool" where
  "wf_list l n = (length l = n \<and> distinct (map index l) \<and> list_all (\<lambda>p. index p < n) l)"

text \<open>
  The nodes \<open>k\<close> with an edge \<open>j \<rightarrow> k\<close>, the nodes \<open>j\<close> with an edge \<open>j \<rightarrow> i\<close>, and the
  degrees of the specification (4.2): the number of such nodes.
\<close>

definition out_neighbours :: "graph \<Rightarrow> nat \<Rightarrow> nat list" where
  "out_neighbours g j = filter (\<lambda>k. edges g j k \<noteq> 0) [0..<nV g]"

definition in_neighbours :: "graph \<Rightarrow> nat \<Rightarrow> nat list" where
  "in_neighbours g i = filter (\<lambda>j. edges g j i \<noteq> 0) [0..<nV g]"

definition in_degree :: "graph \<Rightarrow> nat \<Rightarrow> nat" where
  "in_degree g i = length (in_neighbours g i)"

definition out_degree :: "graph \<Rightarrow> nat \<Rightarrow> nat" where
  "out_degree g i = length (out_neighbours g i)"

text \<open>The cells hold the degrees of their nodes in \<open>g\<close>.\<close>

definition degrees_set :: "node list \<Rightarrow> graph \<Rightarrow> bool" where
  "degrees_set l g =
     list_all (\<lambda>p. inDegree p = real (in_degree g (index p))
                  \<and> outDegree p = real (out_degree g (index p))) l"

text \<open>The specification's \<open>Init\<close> for one cell (4.4): rank \<open>1 / N\<close>, and the two degrees.\<close>

definition spec_init :: "graph \<Rightarrow> node \<Rightarrow> node" where
  "spec_init g p =
     p\<lparr>rank := 1 / real (nV g),
       outDegree := real (out_degree g (index p)),
       inDegree := real (in_degree g (index p))\<rparr>"

text \<open>
  The weights of the specification (4.3):
  \<open>Win[j][i] = inDegree(i) / \<Sum>{inDegree(k) | j \<rightarrow> k}\<close> and
  \<open>Wout[j][i] = effOut(i) / \<Sum>{effOut(k) | j \<rightarrow> k}\<close>, with \<open>effOut(x)\<close> the out-degree of
  \<open>x\<close> if it is not 0 and 0.5 otherwise, and 0.5 for a denominator that is 0.
\<close>

definition spec_Win :: "graph \<Rightarrow> nat \<Rightarrow> nat \<Rightarrow> real" where
  "spec_Win g j i =
     real (in_degree g i) / (\<Sum>k\<leftarrow>out_neighbours g j. real (in_degree g k))"

definition effOut :: "graph \<Rightarrow> nat \<Rightarrow> real" where
  "effOut g x = (if out_degree g x = 0 then 0.5 else real (out_degree g x))"

definition spec_Wout :: "graph \<Rightarrow> nat \<Rightarrow> nat \<Rightarrow> real" where
  "spec_Wout g j i =
     effOut g i /
       (let s = (\<Sum>k\<leftarrow>out_neighbours g j. effOut g k) in if s = 0 then 0.5 else s)"

text \<open>
  A weight matrix of the specification: \<open>W j i\<close> on the edges \<open>j \<rightarrow> i\<close> of \<open>g\<close> with
  \<open>j \<noteq> i\<close>, and 0 elsewhere.
\<close>

definition spec_weights :: "graph \<Rightarrow> (nat \<Rightarrow> nat \<Rightarrow> real) \<Rightarrow> graph" where
  "spec_weights g W =
     \<lparr>nV = nV g,
      edges = (\<lambda>a b. if a < nV g \<and> b < nV g \<and> edges g a b \<noteq> 0 \<and> a \<noteq> b then W a b else 0)\<rparr>"

text \<open>The rank vectors of a list, by node index: \<open>rank[j]\<close> and \<open>prevRank[j]\<close>.\<close>

definition rank_of :: "node list \<Rightarrow> nat \<Rightarrow> real" where
  "rank_of l j = rank (the (getNode l j))"

definition prevRank_of :: "node list \<Rightarrow> nat \<Rightarrow> real" where
  "prevRank_of l j = prevRank (the (getNode l j))"

text \<open>
  The step of the specification (4.4), a map from the old rank vector to the new cells:
  \<open>weight(i)\<close> is the sum of \<open>prev[j] * Wout[j][i] * Win[j][i]\<close> over the edges
  \<open>j \<rightarrow> i\<close>, and the new rank of node \<open>i\<close> is \<open>(1 - d) / N + d * weight(i)\<close>.
\<close>

definition spec_weight :: "graph \<Rightarrow> graph \<Rightarrow> graph \<Rightarrow> (nat \<Rightarrow> real) \<Rightarrow> nat \<Rightarrow> real" where
  "spec_weight g gWin gWout prev i =
     (\<Sum>j\<leftarrow>in_neighbours g i. prev j * edges gWout j i * edges gWin j i)"

definition spec_step ::
  "graph \<Rightarrow> graph \<Rightarrow> graph \<Rightarrow> real \<Rightarrow> real \<Rightarrow> node list \<Rightarrow> node list" where
  "spec_step g gWin gWout d N l =
     map (\<lambda>p. p\<lparr>prevRank := rank p,
                rank := (1 - d) / N + d * spec_weight g gWin gWout (rank_of l) (index p)\<rparr>) l"

text \<open>
  The value of the local \<open>diff\<close> after \<open>m\<close> steps \<open>S\<close> from the list \<open>l\<close>: its initial
  value before the first step, the difference of the last step afterwards.
\<close>

definition diff_after :: "(node list \<Rightarrow> node list) \<Rightarrow> real \<Rightarrow> node list \<Rightarrow> nat \<Rightarrow> real" where
  "diff_after S diff0 l m = (if m = 0 then diff0 else calculateDiff ((S ^^ m) l))"

text \<open>A small run: two pages \<open>a\<close> and \<open>b\<close>, and the only link from \<open>a\<close> to \<open>b\<close>.\<close>

definition example_nodes :: "node list" where
  "example_nodes =
     [\<lparr>url = ''a'', index = 0, rank = 0, prevRank = 0, inDegree = 0, outDegree = 0\<rparr>,
      \<lparr>url = ''b'', index = 1, rank = 0, prevRank = 0, inDegree = 0, outDegree = 0\<rparr>]"

definition example_graph :: graph where
  "example_graph = \<lparr>nV = 2, edges = (\<lambda>a b. if a = 0 \<and> b = 1 then 1 else 0)\<rparr>"

text \<open>\<open>k\<close> successive steps of the loop body, all with the same matrices.\<close>

fun rankSteps ::
  "nat \<Rightarrow> graph \<Rightarrow> graph \<Rightarrow> graph \<Rightarrow> real \<Rightarrow> real \<Rightarrow> node list \<Rightarrow> node list option" where
  "rankSteps 0 g gWin gWout d N l = Some l"
| "rankSteps (Suc k) g gWin gWout d N l =
     (case rankStep g gWin gWout d N l of
        None \<Rightarrow> None
      | Some l' \<Rightarrow> rankSteps k g gWin gWout d N l')"

text \<open>
  The number of times the loop body of \<open>calculatePageRank\<close> has run: the counter \<open>i\<close>
  starts at 1 and is incremented after each run of the body.
\<close>

definition stepsPerformed :: "node list \<Rightarrow> graph \<Rightarrow> real \<Rightarrow> real \<Rightarrow> int \<Rightarrow> int option" where
  "stepsPerformed l g d diffPR maxIterations =
     map_option (\<lambda>(i, diff, l'). i - 1) (calculatePageRankState l g d diffPR maxIterations)"

text \<open>
  The link files of the small run: \<open>a.txt\<close> links to \<open>a\<close> itself, to \<open>b\<close> and to an unknown
  \<open>c\<close>, and names \<open>b\<close> again after \<open>#end\<close>; \<open>b.txt\<close> links to \<open>b\<close> itself only.
\<close>

definition example_files :: "string \<Rightarrow> string list option" where
  "example_files u =
     (if u = ''a'' then Some [''a'', ''b'', ''c'', ''#end'', ''b'']
      else if u = ''b'' then Some [''b'', ''#end'']
      else None)"

section \<open>Auxiliary lemmas\<close>

lemma for_loop_append:
  "for_loop (xs @ ys) body s = Option.bind (for_loop xs body s) (for_loop ys body)"
  by (induction xs arbitrary: s) (auto split: option.splits)

lemma for_loop_sum:
  fixes a :: "'a::monoid_add"
  assumes "\<And>x acc. x \<in> set xs \<Longrightarrow> body x acc = Some (if P x then acc + f x else acc)"
  shows "for_loop xs body a = Some (a + sum_list (map f (filter P xs)))"
  using assms
  by (induction xs arbitrary: a) (auto simp: add.assoc)

lemma index_set_wf:
  assumes "wf_list l n"
  shows "index ` set l = {..<n}"
proof -
  have sub: "index ` set l \<subseteq> {..<n}"
    using assms by (auto simp: wf_list_def list_all_iff)
  have "card (index ` set l) = n"
    using assms distinct_card [of "map index l"] by (simp add: wf_list_def)
  then show ?thesis
    using sub by (simp add: card_subset_eq)
qed

lemma getNode_wf:
  assumes "wf_list l n" and "i < n"
  shows "\<exists>p. getNode l i = Some p \<and> p \<in> set l \<and> index p = i"
proof -
  have "i \<in> index ` set l"
    using index_set_wf [OF assms(1)] assms(2) by simp
  then obtain q where q: "q \<in> set l" "index q = i" by auto
  then have "find (\<lambda>n. index n = i) l \<noteq> None"
    by (auto simp: find_None_iff)
  then obtain p where p: "find (\<lambda>n. index n = i) l = Some p" by auto
  then have "p \<in> set l \<and> index p = i"
    by (auto simp: find_Some_iff)
  with p assms show ?thesis
    by (simp add: getNode_def wf_list_def)
qed

lemma incomingDegree_eq:
  assumes "i < nV g"
  shows "incomingDegree g i = Some (real (length (in_neighbours g i)))"
proof -
  have "for_loop [0..<nV g]
          (\<lambda>urlB degree. do {
             a \<leftarrow> isAdjacent g urlB i;
             Some (if a then degree + 1 else degree) })
          (0::nat) = Some (0 + sum_list (map (\<lambda>_. 1) (filter (\<lambda>j. edges g j i \<noteq> 0) [0..<nV g])))"
    using assms by (intro for_loop_sum) (simp add: isAdjacent_def)
  then show ?thesis
    by (simp add: incomingDegree_def in_neighbours_def sum_list_triv)
qed

lemma outgoingDegree_eq:
  assumes "i < nV g"
  shows "outgoingDegree g i = Some (real (length (out_neighbours g i)))"
proof -
  have "for_loop [0..<nV g]
          (\<lambda>urlB degree. do {
             a \<leftarrow> isAdjacent g i urlB;
             Some (if a then degree + 1 else degree) })
          (0::real) = Some (0 + sum_list (map (\<lambda>_. 1) (filter (\<lambda>j. edges g i j \<noteq> 0) [0..<nV g])))"
    using assms by (intro for_loop_sum) (simp add: isAdjacent_def)
  then show ?thesis
    by (simp add: outgoingDegree_def out_neighbours_def sum_list_triv)
qed

lemma initialiseRankAndDegree_eq:
  assumes "list_all (\<lambda>p. index p < nV g) l"
  shows "initialiseRankAndDegree l g (real (nV g)) = Some (map (spec_init g) l)"
  using assms
  by (induction l)
     (simp_all add: incomingDegree_eq outgoingDegree_eq spec_init_def in_degree_def out_degree_def)

lemma wf_list_map:
  assumes "wf_list l n" and "\<And>p. index (f p) = index p"
  shows "wf_list (map f l) n"
  using assms by (simp add: wf_list_def list_all_iff o_def)

lemma degrees_set_init: "degrees_set (map (spec_init g) l) g"
  by (simp add: degrees_set_def list_all_iff spec_init_def)

lemma nV_GraphNew: "nV (GraphNew n) = n"
  by (simp add: GraphNew_def)

lemma edges_GraphNew: "edges (GraphNew n) a b = 0"
  by (simp add: GraphNew_def)

lemma GraphNew_update: "(GraphNew n)\<lparr>edges := f\<rparr> = \<lparr>nV = n, edges = f\<rparr>"
  by (simp add: GraphNew_def)

lemma edges_update_cong:
  fixes gW :: graph
  assumes "\<And>a b. f a b = f' a b"
  shows "gW\<lparr>edges := f\<rparr> = gW\<lparr>edges := f'\<rparr>"
proof -
  have "f = f'" using assms by (simp add: fun_eq_iff)
  then show ?thesis by simp
qed

lemma build_inner:
  fixes gW :: graph
  assumes "j < n" and "nV gW = n" and "m \<le> n"
    and body: "\<And>i gW'. i < n \<Longrightarrow> nV gW' = n \<Longrightarrow>
      body i gW' = Some (if A i \<and> j \<noteq> i
                         then gW'\<lparr>edges := (edges gW')(j := (edges gW' j)(i := W i))\<rparr>
                         else gW')"
  shows "for_loop [0..<m] body gW =
     Some (gW\<lparr>edges := (\<lambda>a b. if a = j \<and> b < m \<and> A b \<and> j \<noteq> b then W b
                             else edges gW a b)\<rparr>)"
  using \<open>m \<le> n\<close>
proof (induction m)
  case 0
  then show ?case by simp
next
  case (Suc m)
  then have m: "m < n" by simp
  let ?g = "gW\<lparr>edges := (\<lambda>a b. if a = j \<and> b < m \<and> A b \<and> j \<noteq> b then W b
                             else edges gW a b)\<rparr>"
  have "nV ?g = n" using assms(2) by simp
  then have step: "body m ?g = Some (if A m \<and> j \<noteq> m
                         then ?g\<lparr>edges := (edges ?g)(j := (edges ?g j)(m := W m))\<rparr>
                         else ?g)"
    using body [OF m] by blast
  have "for_loop [0..<Suc m] body gW = body m ?g"
    using Suc by (simp add: for_loop_append split: option.splits)
  also have "\<dots> = Some (gW\<lparr>edges := (\<lambda>a b. if a = j \<and> b < Suc m \<and> A b \<and> j \<noteq> b then W b
                             else edges gW a b)\<rparr>)"
    unfolding step by (auto intro!: edges_update_cong simp: less_Suc_eq)
  finally show ?case .
qed

lemma build_outer:
  fixes gW :: graph
  assumes "nV gW = n" and "m \<le> n"
    and body: "\<And>j i gW'. j < n \<Longrightarrow> i < n \<Longrightarrow> nV gW' = n \<Longrightarrow>
      body j i gW' = Some (if A j i \<and> j \<noteq> i
                         then gW'\<lparr>edges := (edges gW')(j := (edges gW' j)(i := W j i))\<rparr>
                         else gW')"
  shows "for_loop [0..<m] (\<lambda>j. for_loop [0..<n] (body j)) gW =
     Some (gW\<lparr>edges := (\<lambda>a b. if a < m \<and> b < n \<and> A a b \<and> a \<noteq> b then W a b
                             else edges gW a b)\<rparr>)"
  using \<open>m \<le> n\<close>
proof (induction m)
  case 0
  then show ?case by simp
next
  case (Suc m)
  then have m: "m < n" by simp
  let ?g = "gW\<lparr>edges := (\<lambda>a b. if a < m \<and> b < n \<and> A a b \<and> a \<noteq> b then W a b
                             else edges gW a b)\<rparr>"
  have nv: "nV ?g = n" using assms(1) by simp
  have row: "for_loop [0..<n] (body m) ?g =
     Some (?g\<lparr>edges := (\<lambda>a b. if a = m \<and> b < n \<and> A m b \<and> m \<noteq> b then W m b
                             else edges ?g a b)\<rparr>)"
    by (rule build_inner [OF m nv order_refl]) (rule body [OF m])
  have "for_loop [0..<Suc m] (\<lambda>j. for_loop [0..<n] (body j)) gW = for_loop [0..<n] (body m) ?g"
    using Suc by (simp add: for_loop_append split: option.splits)
  also have "\<dots> = Some (gW\<lparr>edges := (\<lambda>a b. if a < Suc m \<and> b < n \<and> A a b \<and> a \<noteq> b then W a b
                             else edges gW a b)\<rparr>)"
    unfolding row by (auto intro!: edges_update_cong simp: less_Suc_eq)
  finally show ?case .
qed

lemma getNode_degrees:
  assumes "wf_list l n" and "degrees_set l g" and "i < n"
  shows "\<exists>p. getNode l i = Some p \<and> index p = i
            \<and> inDegree p = real (in_degree g i) \<and> outDegree p = real (out_degree g i)"
proof -
  obtain p where p: "getNode l i = Some p" "p \<in> set l" "index p = i"
    using getNode_wf [OF assms(1,3)] by blast
  with assms(2) show ?thesis
    by (auto simp: degrees_set_def list_all_iff)
qed

lemma pjTotalIncomingLinks_eq:
  assumes wf: "wf_list l (nV g)" and deg: "degrees_set l g" and pj: "index pj < nV g"
  shows "pjTotalIncomingLinks l g pj =
           Some (\<Sum>k\<leftarrow>out_neighbours g (index pj). real (in_degree g k))"
proof -
  have "pjTotalIncomingLinks l g pj =
          Some (0 + sum_list (map (\<lambda>k. real (in_degree g k))
                       (filter (\<lambda>k. edges g (index pj) k \<noteq> 0) [0..<nV g])))"
    unfolding pjTotalIncomingLinks_def
  proof (rule for_loop_sum)
    fix x acc
    assume "x \<in> set [0..<nV g]"
    then have x: "x < nV g" by simp
    obtain p where "getNode l x = Some p" "inDegree p = real (in_degree g x)"
      using getNode_degrees [OF wf deg x] by blast
    then show "do {
           a \<leftarrow> isAdjacent g (index pj) x;
           if a then do {
             refPage \<leftarrow> getNode l x;
             Some (acc + inDegree refPage) }
           else Some acc } =
         Some (if edges g (index pj) x \<noteq> 0 then acc + real (in_degree g x) else acc)"
      using x pj by (simp add: isAdjacent_def)
  qed
  then show ?thesis by (simp add: out_neighbours_def)
qed

lemma pjTotalOutgoingLinks_eq:
  assumes wf: "wf_list l (nV g)" and deg: "degrees_set l g" and pj: "index pj < nV g"
  shows "pjTotalOutgoingLinks l g pj =
           Some (let s = (\<Sum>k\<leftarrow>out_neighbours g (index pj). effOut g k)
                 in if s = 0 then 0.5 else s)"
proof -
  have "for_loop [0..<nV g]
       (\<lambda>pjCol total. do {
          a \<leftarrow> isAdjacent g (index pj) pjCol;
          if a then do {
            refPage \<leftarrow> getNode l pjCol;
            Some (if outDegree refPage = 0 then total + 0.5
                  else total + outDegree refPage) }
          else Some total })
       0 =
          Some (0 + sum_list (map (effOut g)
                       (filter (\<lambda>k. edges g (index pj) k \<noteq> 0) [0..<nV g])))"
  proof (rule for_loop_sum)
    fix x acc
    assume "x \<in> set [0..<nV g]"
    then have x: "x < nV g" by simp
    obtain p where "getNode l x = Some p" "outDegree p = real (out_degree g x)"
      using getNode_degrees [OF wf deg x] by blast
    then show "do {
           a \<leftarrow> isAdjacent g (index pj) x;
           if a then do {
             refPage \<leftarrow> getNode l x;
             Some (if outDegree refPage = 0 then acc + 0.5
                  else acc + outDegree refPage) }
           else Some acc } =
         Some (if edges g (index pj) x \<noteq> 0 then acc + effOut g x else acc)"
      using x pj by (simp add: isAdjacent_def effOut_def)
  qed
  then show ?thesis by (simp add: pjTotalOutgoingLinks_def out_neighbours_def Let_def)
qed

lemma setGraphWin_eq:
  assumes wf: "wf_list l (nV g)" and deg: "degrees_set l g"
  shows "setGraphWin l g = Some (spec_weights g (spec_Win g))"
proof -
  have "setGraphWin l g =
     Some ((GraphNew (nV g))\<lparr>edges := (\<lambda>a b. if a < nV g \<and> b < nV g \<and> edges g a b \<noteq> 0 \<and> a \<noteq> b
                             then spec_Win g a b else edges (GraphNew (nV g)) a b)\<rparr>)"
    unfolding setGraphWin_def
  proof (rule build_outer [where n = "nV g"])
    fix j i :: nat and gW' :: graph
    assume j: "j < nV g" and i: "i < nV g" and nv: "nV gW' = nV g"
    obtain pj where pj: "getNode l j = Some pj" "index pj = j"
      using getNode_degrees [OF wf deg j] by blast
    obtain p where p: "getNode l i = Some p" "inDegree p = real (in_degree g i)"
      using getNode_degrees [OF wf deg i] by blast
    have "calculateWin l g pj p = Some (spec_Win g j i)"
      using pjTotalIncomingLinks_eq [OF wf deg, of pj] pj j p
      by (simp add: calculateWin_def spec_Win_def)
    then show "do {
             a \<leftarrow> isAdjacent g j i;
             if a \<and> j \<noteq> i then do {
               pjNode \<leftarrow> getNode l j;
               piNode \<leftarrow> getNode l i;
               Win \<leftarrow> calculateWin l g pjNode piNode;
               GraphInsertEdge gW' (Edge j i Win) }
             else Some gW' } =
          Some (if edges g j i \<noteq> 0 \<and> j \<noteq> i
                then gW'\<lparr>edges := (edges gW')(j := (edges gW' j)(i := spec_Win g j i))\<rparr>
                else gW')"
      using j i nv pj p by (simp add: isAdjacent_def)
  qed (simp_all add: nV_GraphNew)
  then show ?thesis by (simp add: spec_weights_def edges_GraphNew GraphNew_update cong: if_cong)
qed

lemma setGraphWout_eq:
  assumes wf: "wf_list l (nV g)" and deg: "degrees_set l g"
  shows "setGraphWout l g = Some (spec_weights g (spec_Wout g))"
proof -
  have "setGraphWout l g =
     Some ((GraphNew (nV g))\<lparr>edges := (\<lambda>a b. if a < nV g \<and> b < nV g \<and> edges g a b \<noteq> 0 \<and> a \<noteq> b
                             then spec_Wout g a b else edges (GraphNew (nV g)) a b)\<rparr>)"
    unfolding setGraphWout_def
  proof (rule build_outer [where n = "nV g"])
    fix j i :: nat and gW' :: graph
    assume j: "j < nV g" and i: "i < nV g" and nv: "nV gW' = nV g"
    obtain pj where pj: "getNode l j = Some pj" "index pj = j"
      using getNode_degrees [OF wf deg j] by blast
    obtain p where p: "getNode l i = Some p" "outDegree p = real (out_degree g i)"
      using getNode_degrees [OF wf deg i] by blast
    have "calculateWout l g pj p = Some (spec_Wout g j i)"
      using pjTotalOutgoingLinks_eq [OF wf deg, of pj] pj j p
      by (simp add: calculateWout_def spec_Wout_def effOut_def Let_def)
    then show "do {
             a \<leftarrow> isAdjacent g j i;
             if a \<and> j \<noteq> i then do {
               pjNode \<leftarrow> getNode l j;
               piNode \<leftarrow> getNode l i;
               Wout \<leftarrow> calculateWout l g pjNode piNode;
               GraphInsertEdge gW' (Edge j i Wout) }
             else Some gW' } =
          Some (if edges g j i \<noteq> 0 \<and> j \<noteq> i
                then gW'\<lparr>edges := (edges gW')(j := (edges gW' j)(i := spec_Wout g j i))\<rparr>
                else gW')"
      using j i nv pj p by (simp add: isAdjacent_def)
  qed (simp_all add: nV_GraphNew)
  then show ?thesis by (simp add: spec_weights_def edges_GraphNew GraphNew_update cong: if_cong)
qed

lemma getPageWeight_eq:
  assumes wf: "wf_list l (nV g)" and p: "index p < nV g"
    and nin: "nV gWin = nV g" and nout: "nV gWout = nV g"
  shows "getPageWeight l g gWin gWout p =
           Some (spec_weight g gWin gWout (prevRank_of l) (index p))"
proof -
  have "getPageWeight l g gWin gWout p =
          Some (0 + sum_list (map (\<lambda>j. prevRank_of l j * edges gWout j (index p) * edges gWin j (index p))
                       (filter (\<lambda>j. edges g j (index p) \<noteq> 0) [0..<nV g])))"
    unfolding getPageWeight_def
  proof (rule for_loop_sum)
    fix x acc
    assume "x \<in> set [0..<nV g]"
    then have x: "x < nV g" by simp
    obtain q where "getNode l x = Some q"
      using getNode_wf [OF wf x] by blast
    then show "do {
          a \<leftarrow> isAdjacent g x (index p);
          if a then do {
            pj \<leftarrow> getNode l x;
            Wout \<leftarrow> readEdge gWout x (index p);
            Win \<leftarrow> readEdge gWin x (index p);
            Some (acc + prevRank pj * Wout * Win) }
          else Some acc } =
         Some (if edges g x (index p) \<noteq> 0
               then acc + prevRank_of l x * edges gWout x (index p) * edges gWin x (index p)
               else acc)"
      using x p nin nout by (simp add: isAdjacent_def readEdge_def prevRank_of_def)
  qed
  then show ?thesis by (simp add: spec_weight_def in_neighbours_def)
qed

lemma find_prevRank_cong:
  assumes "length l = length l'"
    and "map index l = map index l'" and "map prevRank l = map prevRank l'"
  shows "map_option prevRank (find (\<lambda>n. index n = j) l)
       = map_option prevRank (find (\<lambda>n. index n = j) l')"
  using assms by (induction l l' rule: list_induct2) auto

lemma prevRank_of_cong:
  assumes "map index l = map index l'" and "map prevRank l = map prevRank l'"
  shows "prevRank_of l = prevRank_of l'"
proof
  fix j
  have len: "length l = length l'"
    using assms(1) by (rule map_eq_imp_length_eq)
  have "map_option prevRank (find (\<lambda>n. index n = j) l)
       = map_option prevRank (find (\<lambda>n. index n = j) l')"
    by (rule find_prevRank_cong [OF len assms])
  then show "prevRank_of l j = prevRank_of l' j"
    using len
    by (cases "find (\<lambda>n. index n = j) l"; cases "find (\<lambda>n. index n = j) l'")
       (auto simp: prevRank_of_def getNode_def)
qed

lemma wf_list_cong:
  assumes "map index l' = map index l" and "wf_list l n"
  shows "wf_list l' n"
proof -
  have "length l' = length l" using assms(1) by (rule map_eq_imp_length_eq)
  moreover have "set (map index l') = set (map index l)" using assms(1) by simp
  ultimately show ?thesis
    using assms unfolding wf_list_def list_all_iff by (metis (no_types, lifting) image_iff list.set_map)
qed

lemma updateRank_prefix:
  fixes d N :: real and g gWin gWout :: graph
  assumes wf: "wf_list l0 (nV g)" and k: "k \<le> length l0"
    and nin: "nV gWin = nV g" and nout: "nV gWout = nV g"
  defines "upd \<equiv> (\<lambda>p. p\<lparr>rank := (1 - d) / N
                       + d * spec_weight g gWin gWout (prevRank_of l0) (index p)\<rparr>)"
  shows "for_loop [0..<k]
       (\<lambda>k l. do {
          weights \<leftarrow> getPageWeight l g gWin gWout (l ! k);
          Some (l[k := (l ! k)\<lparr>rank := (1 - d) / N + d * weights\<rparr>]) })
       l0 = Some (map upd (take k l0) @ drop k l0)"
  using k
proof (induction k)
  case 0
  then show ?case by simp
next
  case (Suc k)
  then have k: "k < length l0" by simp
  let ?lk = "map upd (take k l0) @ drop k l0"
  have split: "?lk = map upd (take k l0) @ (l0 ! k) # drop (Suc k) l0"
    using k by (simp add: Cons_nth_drop_Suc)
  have lenk: "length (map upd (take k l0)) = k"
    using k by simp
  have nth: "?lk ! k = l0 ! k"
    unfolding split using lenk by (metis nth_append_length)
  have idx: "map index ?lk = map index l0"
  proof -
    have "map index ?lk = map index (take k l0) @ map index (drop k l0)"
      by (simp add: upd_def o_def)
    also have "\<dots> = map index l0"
      by (simp flip: map_append)
    finally show ?thesis .
  qed
  have prv: "map prevRank ?lk = map prevRank l0"
  proof -
    have "map prevRank ?lk = map prevRank (take k l0) @ map prevRank (drop k l0)"
      by (simp add: upd_def o_def)
    also have "\<dots> = map prevRank l0"
      by (simp flip: map_append)
    finally show ?thesis .
  qed
  have wfk: "wf_list ?lk (nV g)"
    by (rule wf_list_cong [OF idx wf])
  have "l0 ! k \<in> set l0" using k by simp
  then have ik: "index (l0 ! k) < nV g"
    using wf by (auto simp: wf_list_def list_all_iff)
  have w: "getPageWeight ?lk g gWin gWout (l0 ! k)
         = Some (spec_weight g gWin gWout (prevRank_of l0) (index (l0 ! k)))"
    using getPageWeight_eq [OF wfk ik nin nout] prevRank_of_cong [OF idx prv] by simp
  have upd_list: "?lk[k := upd (l0 ! k)] = map upd (take (Suc k) l0) @ drop (Suc k) l0"
  proof -
    have "?lk[k := upd (l0 ! k)] = map upd (take k l0) @ upd (l0 ! k) # drop (Suc k) l0"
      unfolding split using lenk by (metis list_update_length)
    also have "\<dots> = map upd (take (Suc k) l0) @ drop (Suc k) l0"
      using k by (simp add: take_Suc_conv_app_nth)
    finally show ?thesis .
  qed
  have "for_loop [0..<Suc k]
       (\<lambda>k l. do {
          weights \<leftarrow> getPageWeight l g gWin gWout (l ! k);
          Some (l[k := (l ! k)\<lparr>rank := (1 - d) / N + d * weights\<rparr>]) })
       l0 = do {
          weights \<leftarrow> getPageWeight ?lk g gWin gWout (?lk ! k);
          Some (?lk[k := (?lk ! k)\<lparr>rank := (1 - d) / N + d * weights\<rparr>]) }"
    using Suc by (simp add: for_loop_append split: option.splits)
  also have "\<dots> = Some (?lk[k := upd (l0 ! k)])"
    unfolding nth w by (simp add: upd_def)
  finally show ?case
    unfolding upd_list .
qed

lemma updateRank_eq:
  assumes wf: "wf_list l (nV g)" and nin: "nV gWin = nV g" and nout: "nV gWout = nV g"
  shows "updateRank l g gWin gWout d N =
     Some (map (\<lambda>p. p\<lparr>rank := (1 - d) / N
                       + d * spec_weight g gWin gWout (prevRank_of l) (index p)\<rparr>) l)"
  using updateRank_prefix [OF wf order_refl nin nout]
  by (simp add: updateRank_def)

lemma find_index_map:
  assumes "\<And>p. index (f p) = index p"
  shows "find (\<lambda>n. index n = j) (map f l) = map_option f (find (\<lambda>n. index n = j) l)"
  using assms by (induction l) simp_all

lemma getNode_map:
  assumes "\<And>p. index (f p) = index p"
  shows "getNode (map f l) j = map_option f (getNode l j)"
  using assms by (simp add: getNode_def find_index_map)

lemma prevRank_of_storePrevRank:
  assumes "wf_list l n" and "j < n"
  shows "prevRank_of (storePrevRank l) j = rank_of l j"
proof -
  obtain p where "getNode l j = Some p"
    using getNode_wf [OF assms] by blast
  then show ?thesis
    by (simp add: prevRank_of_def rank_of_def storePrevRank_def getNode_map)
qed

lemma spec_weight_cong:
  assumes "\<And>j. j < nV g \<Longrightarrow> prev j = prev' j"
  shows "spec_weight g gWin gWout prev i = spec_weight g gWin gWout prev' i"
proof -
  have "map (\<lambda>j. prev j * edges gWout j i * edges gWin j i) (in_neighbours g i)
      = map (\<lambda>j. prev' j * edges gWout j i * edges gWin j i) (in_neighbours g i)"
  proof (rule map_cong [OF refl])
    fix j
    assume "j \<in> set (in_neighbours g i)"
    then have "j < nV g" by (simp add: in_neighbours_def)
    then show "prev j * edges gWout j i * edges gWin j i
             = prev' j * edges gWout j i * edges gWin j i"
      using assms by simp
  qed
  then show ?thesis unfolding spec_weight_def by (rule arg_cong)
qed

lemma rankStep_eq:
  assumes wf: "wf_list l (nV g)" and nin: "nV gWin = nV g" and nout: "nV gWout = nV g"
  shows "rankStep g gWin gWout d N l = Some (spec_step g gWin gWout d N l)"
proof -
  have wf': "wf_list (storePrevRank l) (nV g)"
    unfolding storePrevRank_def by (rule wf_list_map [OF wf]) simp
  have w: "spec_weight g gWin gWout (prevRank_of (storePrevRank l)) i
         = spec_weight g gWin gWout (rank_of l) i" for i
    by (rule spec_weight_cong) (rule prevRank_of_storePrevRank [OF wf])
  show ?thesis
    unfolding rankStep_def updateRank_eq [OF wf' nin nout] w
    by (simp add: spec_step_def storePrevRank_def o_def)
qed

lemma wf_spec_step:
  assumes "wf_list l n"
  shows "wf_list (spec_step g gWin gWout d N l) n"
  unfolding spec_step_def by (rule wf_list_map [OF assms]) simp

lemma calculateDiff_eq: "calculateDiff l = (\<Sum>p\<leftarrow>l. \<bar>rank p - prevRank p\<bar>)"
proof -
  have "foldl (\<lambda>d p. d + \<bar>rank p - prevRank p\<bar>) a l = a + (\<Sum>p\<leftarrow>l. \<bar>rank p - prevRank p\<bar>)" for a
    by (induction l arbitrary: a) simp_all
  then show ?thesis by (simp add: calculateDiff_def)
qed

lemma pageRankLoop_stop:
  assumes "\<not> (i < maxIterations \<and> diffPR \<le> diff)"
  shows "pageRankLoop g gWin gWout d N diffPR maxIterations i diff l = Some (i, diff, l)"
  using assms by (subst pageRankLoop.simps) auto

lemma pageRankLoop_step:
  assumes "i < maxIterations" and "diffPR \<le> diff" and "wf_list l (nV g)"
    and "nV gWin = nV g" and "nV gWout = nV g"
  shows "pageRankLoop g gWin gWout d N diffPR maxIterations i diff l =
         pageRankLoop g gWin gWout d N diffPR maxIterations (i + 1)
           (calculateDiff (spec_step g gWin gWout d N l)) (spec_step g gWin gWout d N l)"
  using assms by (subst pageRankLoop.simps) (simp add: rankStep_eq)

lemma pageRankLoop_trace:
  fixes g gWin gWout :: graph and d N :: real
  defines "S \<equiv> spec_step g gWin gWout d N"
  assumes nin: "nV gWin = nV g" and nout: "nV gWout = nV g" and wf: "wf_list l (nV g)"
  shows "\<exists>k. pageRankLoop g gWin gWout d N diffPR maxIterations i diff l
              = Some (i + int k, diff_after S diff l k, (S ^^ k) l)
           \<and> \<not> (i + int k < maxIterations \<and> diffPR \<le> diff_after S diff l k)
           \<and> (\<forall>m<k. i + int m < maxIterations \<and> diffPR \<le> diff_after S diff l m)"
  using wf
proof (induction "nat (maxIterations - i)" arbitrary: i diff l)
  case 0
  then have "\<not> (i < maxIterations \<and> diffPR \<le> diff)" by simp
  then have "pageRankLoop g gWin gWout d N diffPR maxIterations i diff l = Some (i, diff, l)"
    by (rule pageRankLoop_stop)
  with 0 show ?case
    by (intro exI [of _ 0]) (simp add: diff_after_def)
next
  case (Suc n)
  show ?case
  proof (cases "diffPR \<le> diff")
    case False
    then have "pageRankLoop g gWin gWout d N diffPR maxIterations i diff l = Some (i, diff, l)"
      by (intro pageRankLoop_stop) simp
    with False show ?thesis
      by (intro exI [of _ 0]) (simp add: diff_after_def)
  next
    case True
    from Suc.hyps(2) have lt: "i < maxIterations" by simp
    have n: "n = nat (maxIterations - (i + 1))" using Suc.hyps(2) by simp
    have wf': "wf_list (S l) (nV g)"
      unfolding S_def by (rule wf_spec_step [OF Suc.prems])
    obtain k where k:
      "pageRankLoop g gWin gWout d N diffPR maxIterations (i + 1) (calculateDiff (S l)) (S l)
         = Some (i + 1 + int k, diff_after S (calculateDiff (S l)) (S l) k, (S ^^ k) (S l))"
      "\<not> (i + 1 + int k < maxIterations
          \<and> diffPR \<le> diff_after S (calculateDiff (S l)) (S l) k)"
      "\<forall>m<k. i + 1 + int m < maxIterations
          \<and> diffPR \<le> diff_after S (calculateDiff (S l)) (S l) m"
      using Suc.hyps(1) [OF n wf'] by blast
    have shift: "diff_after S (calculateDiff (S l)) (S l) m = diff_after S diff l (Suc m)" for m
      by (simp add: diff_after_def funpow_swap1)
    have "pageRankLoop g gWin gWout d N diffPR maxIterations i diff l
         = pageRankLoop g gWin gWout d N diffPR maxIterations (i + 1)
             (calculateDiff (S l)) (S l)"
      unfolding S_def by (rule pageRankLoop_step [OF lt True Suc.prems nin nout])
    also have "\<dots> = Some (i + int (Suc k), diff_after S diff l (Suc k), (S ^^ Suc k) l)"
      unfolding k(1) shift by (simp add: funpow_swap1)
    finally have run: "pageRankLoop g gWin gWout d N diffPR maxIterations i diff l
         = Some (i + int (Suc k), diff_after S diff l (Suc k), (S ^^ Suc k) l)" .
    have stop: "\<not> (i + int (Suc k) < maxIterations \<and> diffPR \<le> diff_after S diff l (Suc k))"
      using k(2) by (simp add: shift add.commute add.left_commute)
    have before: "\<forall>m<Suc k. i + int m < maxIterations \<and> diffPR \<le> diff_after S diff l m"
    proof (intro allI impI)
      fix m
      assume m: "m < Suc k"
      show "i + int m < maxIterations \<and> diffPR \<le> diff_after S diff l m"
      proof (cases m)
        case 0
        with lt True show ?thesis by (simp add: diff_after_def)
      next
        case (Suc m')
        with m have "m' < k" by simp
        with k(3) have "i + 1 + int m' < maxIterations
          \<and> diffPR \<le> diff_after S (calculateDiff (S l)) (S l) m'" by blast
        with Suc show ?thesis by (simp add: shift add.commute add.left_commute)
      qed
    qed
    from run stop before show ?thesis by blast
  qed
qed

lemma wf_example: "wf_list example_nodes (nV example_graph)"
  by (simp add: wf_list_def example_nodes_def example_graph_def)

lemma prevRank_of_spec_step:
  assumes "wf_list l n" and "j < n"
  shows "prevRank_of (spec_step g gWin gWout d N l) j = rank_of l j"
proof -
  obtain p where "getNode l j = Some p"
    using getNode_wf [OF assms] by blast
  then show ?thesis
    by (simp add: prevRank_of_def rank_of_def spec_step_def getNode_map)
qed

lemma spec_step_formula:
  assumes wf: "wf_list l (nV g)" and l': "l' = spec_step g gWin gWout d N l"
  shows "list_all (\<lambda>p. rank p = (1 - d) / N
            + d * spec_weight g gWin gWout (prevRank_of l') (index p)) l'"
proof -
  have "spec_weight g gWin gWout (prevRank_of l') i = spec_weight g gWin gWout (rank_of l) i" for i
    unfolding l' by (rule spec_weight_cong) (rule prevRank_of_spec_step [OF wf])
  then show ?thesis
    by (simp add: l' list_all_iff) (simp add: spec_step_def)
qed

lemma init_wf:
  assumes "wf_list l (nV g)"
  shows "initialiseRankAndDegree l g (real (nV g)) = Some (map (spec_init g) l)"
    and "wf_list (map (spec_init g) l) (nV g)"
proof -
  show "initialiseRankAndDegree l g (real (nV g)) = Some (map (spec_init g) l)"
    using assms by (intro initialiseRankAndDegree_eq) (simp add: wf_list_def)
  show "wf_list (map (spec_init g) l) (nV g)"
    by (rule wf_list_map [OF assms]) (simp add: spec_init_def)
qed

lemma example_out0: "out_neighbours example_graph 0 = [1]"
  by (simp add: out_neighbours_def example_graph_def upt_rec)

lemma example_out1: "out_neighbours example_graph (Suc 0) = []"
  by (simp add: out_neighbours_def example_graph_def upt_rec)

lemma example_in1: "in_neighbours example_graph (Suc 0) = [0]"
  by (simp add: in_neighbours_def example_graph_def upt_rec)

lemma example_in0: "in_neighbours example_graph 0 = []"
  by (simp add: in_neighbours_def example_graph_def upt_rec)

lemma rankSteps_eq:
  assumes "wf_list l (nV g)" and nin: "nV gWin = nV g" and nout: "nV gWout = nV g"
  shows "rankSteps k g gWin gWout d N l = Some ((spec_step g gWin gWout d N ^^ k) l)"
  using assms(1)
proof (induction k arbitrary: l)
  case 0
  then show ?case by simp
next
  case (Suc k)
  have "wf_list (spec_step g gWin gWout d N l) (nV g)"
    by (rule wf_spec_step [OF Suc.prems])
  then show ?case
    using Suc.IH rankStep_eq [OF Suc.prems nin nout] by (simp add: funpow_swap1)
qed

lemma calculatePageRankState_trace:
  fixes g :: graph and d :: real
  defines "S \<equiv> spec_step g (spec_weights g (spec_Win g)) (spec_weights g (spec_Wout g)) d
                  (real (nV g))"
  assumes wf: "wf_list l (nV g)"
  shows "\<exists>k. calculatePageRankState l g d diffPR maxIterations
              = Some (1 + int k, diff_after S diffPR (map (spec_init g) l) k,
                      (S ^^ k) (map (spec_init g) l))
           \<and> \<not> (1 + int k < maxIterations
                 \<and> diffPR \<le> diff_after S diffPR (map (spec_init g) l) k)
           \<and> (\<forall>m<k. 1 + int m < maxIterations
                 \<and> diffPR \<le> diff_after S diffPR (map (spec_init g) l) m)"
proof -
  have wf1: "wf_list (map (spec_init g) l) (nV g)"
    by (rule init_wf(2) [OF wf])
  have "calculatePageRankState l g d diffPR maxIterations =
          pageRankLoop g (spec_weights g (spec_Win g)) (spec_weights g (spec_Wout g)) d
            (real (nV g)) diffPR maxIterations 1 diffPR (map (spec_init g) l)"
    by (simp add: calculatePageRankState_def init_wf(1) [OF wf]
          setGraphWin_eq [OF wf1 degrees_set_init] setGraphWout_eq [OF wf1 degrees_set_init])
  then show ?thesis
    unfolding S_def using pageRankLoop_trace [OF _ _ wf1] by (simp add: spec_weights_def)
qed

lemma in_degree_pos:
  assumes "j < nV g" and "edges g j i \<noteq> 0"
  shows "1 \<le> in_degree g i"
proof -
  have "j \<in> set (in_neighbours g i)"
    using assms by (simp add: in_neighbours_def)
  then have "in_neighbours g i \<noteq> []" by auto
  then show ?thesis
    by (cases "in_neighbours g i") (simp_all add: in_degree_def)
qed

lemma Win_denominator_pos:
  assumes "j < nV g" and "i < nV g" and "edges g j i \<noteq> 0"
  shows "1 \<le> (\<Sum>k\<leftarrow>out_neighbours g j. real (in_degree g k))"
proof -
  have "i \<in> set (out_neighbours g j)"
    using assms by (simp add: out_neighbours_def)
  then have "in_degree g i \<in> set (map (in_degree g) (out_neighbours g j))" by simp
  then have "in_degree g i \<le> sum_list (map (in_degree g) (out_neighbours g j))"
    by (auto intro: member_le_sum_list)
  then have "1 \<le> sum_list (map (in_degree g) (out_neighbours g j))"
    using in_degree_pos [OF assms(1,3)] by linarith
  then have "1 \<le> real (sum_list (map (in_degree g) (out_neighbours g j)))"
    by simp
  also have "\<dots> = (\<Sum>k\<leftarrow>out_neighbours g j. real (in_degree g k))"
    by (simp flip: sum_list_of_nat add: o_def)
  finally show ?thesis .
qed

lemma sum_list_rank_init:
  "(\<Sum>p\<leftarrow>map (spec_init g) l. rank p) = real (length l) / real (nV g)"
  by (induction l) (simp_all add: spec_init_def add_divide_distrib)

lemma calculateDiff_nonneg: "0 \<le> calculateDiff l"
  unfolding calculateDiff_eq by (rule sum_list_nonneg) auto

lemma wf_funpow_step:
  assumes "wf_list l n"
  shows "wf_list ((spec_step g gWin gWout d N ^^ k) l) n"
  by (induction k) (simp_all add: assms wf_spec_step)

lemma engine_run:
  assumes wf: "wf_list l (nV g)"
  shows "\<exists>l1 gWin gWout k dk l'.
       initialiseRankAndDegree l g (real (nV g)) = Some l1
     \<and> wf_list l1 (nV g)
     \<and> l1 = map (spec_init g) l
     \<and> setGraphWin l1 g = Some gWin
     \<and> setGraphWout l1 g = Some gWout
     \<and> nV gWin = nV g \<and> nV gWout = nV g
     \<and> calculatePageRankState l g d diffPR maxIterations = Some (1 + int k, dk, l')
     \<and> rankSteps k g gWin gWout d (real (nV g)) l1 = Some l'
     \<and> dk = (if k = 0 then diffPR else calculateDiff l')
     \<and> (maxIterations \<le> 1 + int k \<or> dk < diffPR)
     \<and> (0 < k \<longrightarrow> int k < maxIterations)
     \<and> (\<forall>m. 0 < m \<and> m < k \<longrightarrow>
           (\<exists>lm. rankSteps m g gWin gWout d (real (nV g)) l1 = Some lm
                 \<and> diffPR \<le> calculateDiff lm))"
proof -
  let ?l1 = "map (spec_init g) l"
  let ?gWin = "spec_weights g (spec_Win g)"
  let ?gWout = "spec_weights g (spec_Wout g)"
  let ?S = "spec_step g ?gWin ?gWout d (real (nV g))"
  have wf1: "wf_list ?l1 (nV g)"
    by (rule init_wf(2) [OF wf])
  have win: "setGraphWin ?l1 g = Some ?gWin"
    by (rule setGraphWin_eq [OF wf1 degrees_set_init])
  have wout: "setGraphWout ?l1 g = Some ?gWout"
    by (rule setGraphWout_eq [OF wf1 degrees_set_init])
  obtain k where k:
    "calculatePageRankState l g d diffPR maxIterations
       = Some (1 + int k, diff_after ?S diffPR ?l1 k, (?S ^^ k) ?l1)"
    "\<not> (1 + int k < maxIterations \<and> diffPR \<le> diff_after ?S diffPR ?l1 k)"
    "\<forall>m<k. 1 + int m < maxIterations \<and> diffPR \<le> diff_after ?S diffPR ?l1 m"
    using calculatePageRankState_trace [OF wf] by blast
  have steps: "rankSteps m g ?gWin ?gWout d (real (nV g)) ?l1 = Some ((?S ^^ m) ?l1)" for m
    by (rule rankSteps_eq [OF wf1]) (simp_all add: spec_weights_def)
  have dk: "diff_after ?S diffPR ?l1 k = (if k = 0 then diffPR else calculateDiff ((?S ^^ k) ?l1))"
    by (simp add: diff_after_def)
  have stop: "maxIterations \<le> 1 + int k \<or> diff_after ?S diffPR ?l1 k < diffPR"
    using k(2) by auto
  have cap: "0 < k \<longrightarrow> int k < maxIterations"
  proof
    assume "0 < k"
    then have "k - 1 < k" by simp
    with k(3) have "1 + int (k - 1) < maxIterations" by blast
    with \<open>0 < k\<close> show "int k < maxIterations" by simp
  qed
  have before: "\<forall>m. 0 < m \<and> m < k \<longrightarrow>
           (\<exists>lm. rankSteps m g ?gWin ?gWout d (real (nV g)) ?l1 = Some lm
                 \<and> diffPR \<le> calculateDiff lm)"
  proof (intro allI impI)
    fix m
    assume m: "0 < m \<and> m < k"
    with k(3) have "diffPR \<le> diff_after ?S diffPR ?l1 m" by blast
    with m have "diffPR \<le> calculateDiff ((?S ^^ m) ?l1)"
      by (simp add: diff_after_def)
    with steps [of m]
    show "\<exists>lm. rankSteps m g ?gWin ?gWout d (real (nV g)) ?l1 = Some lm
                 \<and> diffPR \<le> calculateDiff lm"
      by blast
  qed
  have nv: "nV ?gWin = nV g" "nV ?gWout = nV g"
    by (simp_all add: spec_weights_def)
  show ?thesis
    using init_wf(1) [OF wf] wf1 win wout nv k(1) steps [of k] dk stop cap before
    by blast
qed

lemma index_funpow_step:
  "map index ((spec_step g gWin gWout d N ^^ k) l) = map index l"
  by (induction k) (simp_all add: spec_step_def o_def)

lemma for_loop_total:
  assumes "I s"
    and "\<And>x s. x \<in> set xs \<Longrightarrow> I s \<Longrightarrow> \<exists>s'. body x s = Some s' \<and> I s'"
  shows "\<exists>s'. for_loop xs body s = Some s' \<and> I s'"
  using assms
proof (induction xs arbitrary: s)
  case Nil
  then show ?case by simp
next
  case (Cons x xs)
  obtain s1 where s1: "body x s = Some s1" "I s1"
    using Cons.prems(2) [of x s] Cons.prems(1) by auto
  have "\<exists>s'. for_loop xs body s1 = Some s' \<and> I s'"
    by (rule Cons.IH [OF s1(2)]) (rule Cons.prems(2), simp_all)
  with s1 show ?case by simp
qed

lemma getUrlIndex_range:
  assumes "list_all (\<lambda>p. index p < n) l" and "0 \<le> getUrlIndex l u"
  shows "nat (getUrlIndex l u) < n"
proof (cases "find (\<lambda>p. url p = u) l")
  case None
  with assms(2) show ?thesis by (simp add: getUrlIndex_def)
next
  case (Some p)
  then have "p \<in> set l" by (auto simp: find_Some_iff)
  with assms(1) have "index p < n" by (simp add: list_all_iff)
  with Some show ?thesis by (simp add: getUrlIndex_def)
qed

lemma GraphInsertEdge_diagonal:
  assumes "a \<noteq> b" and "a < nV g" and "b < nV g" and "\<forall>i. edges g i i = 0"
  shows "\<exists>g'. GraphInsertEdge g (Edge a b x) = Some g' \<and> nV g' = nV g
            \<and> (\<forall>i. edges g' i i = 0)"
  using assms by simp

lemma insertEdges_diagonal:
  assumes "list_all (\<lambda>p. index p < nV g) l" and "index cur < nV g"
    and "\<forall>i. edges g i i = 0"
  shows "\<exists>g'. insertEdges g l toks cur = Some g' \<and> nV g' = nV g \<and> (\<forall>i. edges g' i i = 0)"
  using assms
proof (induction toks arbitrary: g)
  case Nil
  then show ?case by simp
next
  case (Cons u toks)
  show ?case
  proof (cases "u \<noteq> ''#end'' \<and> 0 \<le> getUrlIndex l u \<and> getUrlIndex l u \<noteq> int (index cur)")
    case False
    then show ?thesis
      using Cons.IH [OF Cons.prems] Cons.prems(3) by (auto simp: Let_def)
  next
    case True
    then have ne: "index cur \<noteq> nat (getUrlIndex l u)" by auto
    have rng: "nat (getUrlIndex l u) < nV g"
      using getUrlIndex_range [OF Cons.prems(1)] True by simp
    obtain g1 where g1: "GraphInsertEdge g (Edge (index cur) (nat (getUrlIndex l u)) 1) = Some g1"
      "nV g1 = nV g" "\<forall>i. edges g1 i i = 0"
      using GraphInsertEdge_diagonal [OF ne Cons.prems(2) rng Cons.prems(3)] by blast
    have "\<exists>g'. insertEdges g1 l toks cur = Some g' \<and> nV g' = nV g1 \<and> (\<forall>i. edges g' i i = 0)"
      using Cons.prems g1 by (intro Cons.IH) simp_all
    then show ?thesis
      using True g1 by (simp add: Let_def)
  qed
qed

lemma createGraph_diagonal:
  assumes "list_all (\<lambda>p. index p < length l) l"
    and "list_all (\<lambda>p. files (url p) \<noteq> None) l"
  shows "\<exists>g. createGraph l files = Some g \<and> nV g = length l \<and> (\<forall>i. edges g i i = 0)"
  unfolding createGraph_def
proof (rule for_loop_total [where I = "\<lambda>g. nV g = length l \<and> (\<forall>i. edges g i i = 0)"])
  show "nV (GraphNew (length l)) = length l \<and> (\<forall>i. edges (GraphNew (length l)) i i = 0)"
    by (simp add: GraphNew_def)
next
  fix cur and g :: graph
  assume cur: "cur \<in> set l" and g: "nV g = length l \<and> (\<forall>i. edges g i i = 0)"
  obtain toks where toks: "files (url cur) = Some toks"
    using assms(2) cur by (auto simp: list_all_iff)
  have "index cur < nV g"
    using assms(1) cur g by (simp add: list_all_iff)
  moreover have "list_all (\<lambda>p. index p < nV g) l"
    using assms(1) g by simp
  ultimately have "\<exists>g'. insertEdges g l toks cur = Some g' \<and> nV g' = nV g
      \<and> (\<forall>i. edges g' i i = 0)"
    using g by (intro insertEdges_diagonal) simp_all
  then show "\<exists>s'. (case files (url cur) of None \<Rightarrow> None
                    | Some toks \<Rightarrow> insertEdges g l toks cur) = Some s'
                 \<and> nV s' = length l \<and> (\<forall>i. edges s' i i = 0)"
    using toks g by simp
qed

lemma engine_last_step:
  assumes wf: "wf_list l (nV g)" and cap: "2 \<le> maxIterations"
  shows "\<exists>l1 gWin gWout l'.
       initialiseRankAndDegree l g (real (nV g)) = Some l1
     \<and> setGraphWin l1 g = Some gWin
     \<and> setGraphWout l1 g = Some gWout
     \<and> calculatePageRank l g d diffPR maxIterations = Some l'
     \<and> list_all (\<lambda>p. rank p = (1 - d) / real (nV g) + d *
             (\<Sum>j\<leftarrow>in_neighbours g (index p).
                 prevRank_of l' j * edges gWout j (index p) * edges gWin j (index p))) l'"
proof -
  obtain l1 gWin gWout k dk l' where run:
    "initialiseRankAndDegree l g (real (nV g)) = Some l1"
    "wf_list l1 (nV g)"
    "setGraphWin l1 g = Some gWin"
    "setGraphWout l1 g = Some gWout"
    "nV gWin = nV g" "nV gWout = nV g"
    "calculatePageRankState l g d diffPR maxIterations = Some (1 + int k, dk, l')"
    "rankSteps k g gWin gWout d (real (nV g)) l1 = Some l'"
    "dk = (if k = 0 then diffPR else calculateDiff l')"
    "maxIterations \<le> 1 + int k \<or> dk < diffPR"
    using engine_run [OF wf, of d diffPR maxIterations] by blast
  let ?S = "spec_step g gWin gWout d (real (nV g))"
  have "k \<noteq> 0"
    using run(9,10) cap by (cases "k = 0") auto
  then obtain k' where k': "k = Suc k'"
    by (cases k) auto
  have "l' = (?S ^^ k) l1"
    using run(8) rankSteps_eq [OF run(2,5,6), of k d "real (nV g)"] by simp
  then have l': "l' = ?S ((?S ^^ k') l1)"
    by (simp add: k')
  have "wf_list ((?S ^^ k') l1) (nV g)"
    by (rule wf_funpow_step [OF run(2)])
  from spec_step_formula [OF this l']
  have "list_all (\<lambda>p. rank p = (1 - d) / real (nV g) + d *
             (\<Sum>j\<leftarrow>in_neighbours g (index p).
                 prevRank_of l' j * edges gWout j (index p) * edges gWin j (index p))) l'"
    by (simp add: spec_weight_def)
  moreover have "calculatePageRank l g d diffPR maxIterations = Some l'"
    by (simp add: calculatePageRank_def run(7))
  ultimately show ?thesis
    using run(1,3,4) by blast
qed

lemma effOut_pos: "0 < effOut g x"
  by (simp add: effOut_def)

lemma Wout_denominator_pos:
  "0 < (let s = (\<Sum>k\<leftarrow>out_neighbours g j. effOut g k) in if s = 0 then 0.5 else s)"
proof -
  have "0 \<le> (\<Sum>k\<leftarrow>out_neighbours g j. effOut g k)"
    by (rule sum_list_nonneg) (auto simp: effOut_def)
  then show ?thesis
    by (simp add: Let_def)
qed

section \<open>The claims\<close>

text \<open>
  Claim C1. One iteration step (run with matrices that have the vertices of the graph)
  succeeds, keeps the index of every cell, stores the old rank of every cell in its
  \<open>prevRank\<close>, and sets the rank of every cell of index \<open>i\<close> to
  \<open>(1 - d) / N + d * weight i\<close>, where \<open>weight i\<close> is the sum over the nodes \<open>j\<close> with an
  edge \<open>j \<rightarrow> i\<close> (\<open>in_neighbours g i\<close>) of \<open>prevRank[j] * Wout[j][i] * Win[j][i]\<close>;
  \<open>prevRank[j]\<close> is the rank that node \<open>j\<close> had before the step. A cell whose node has
  no incoming edge gets exactly \<open>(1 - d) / N\<close>. \<open>calculatePageRank\<close> runs the step with
  its own \<open>d\<close>, with \<open>N = g->nV\<close> and with the matrices it has computed: when
  \<open>maxIterations \<ge> 2\<close>, the list it returns satisfies the same equation for them.
\<close>

theorem C1_rank_update:
  assumes "wf_list l (nV g)" and "nV gWin = nV g" and "nV gWout = nV g"
  shows "(\<exists>l'. rankStep g gWin gWout d N l = Some l'
       \<and> map index l' = map index l
       \<and> map prevRank l' = map rank l
       \<and> (\<forall>j<nV g. prevRank_of l' j = rank_of l j)
       \<and> list_all (\<lambda>p. rank p = (1 - d) / N + d *
             (\<Sum>j\<leftarrow>in_neighbours g (index p).
                 prevRank_of l' j * edges gWout j (index p) * edges gWin j (index p))) l'
       \<and> list_all (\<lambda>p. in_neighbours g (index p) = [] \<longrightarrow> rank p = (1 - d) / N) l')
     \<and> (2 \<le> maxIterations \<longrightarrow>
          (\<exists>l1 mWin mWout lf.
               initialiseRankAndDegree l g (real (nV g)) = Some l1
             \<and> setGraphWin l1 g = Some mWin
             \<and> setGraphWout l1 g = Some mWout
             \<and> calculatePageRank l g d diffPR maxIterations = Some lf
             \<and> list_all (\<lambda>p. rank p = (1 - d) / real (nV g) + d *
                   (\<Sum>j\<leftarrow>in_neighbours g (index p).
                       prevRank_of lf j * edges mWout j (index p) * edges mWin j (index p))) lf))"
proof -
  let ?l' = "spec_step g gWin gWout d N l"
  have f: "list_all (\<lambda>p. rank p = (1 - d) / N + d *
             (\<Sum>j\<leftarrow>in_neighbours g (index p).
                 prevRank_of ?l' j * edges gWout j (index p) * edges gWin j (index p))) ?l'"
    using spec_step_formula [OF assms(1) refl]
    by (simp add: spec_weight_def)
  then have z: "list_all (\<lambda>p. in_neighbours g (index p) = [] \<longrightarrow> rank p = (1 - d) / N) ?l'"
    by (auto simp: list_all_iff)
  have "map index ?l' = map index l" "map prevRank ?l' = map rank l"
    by (simp_all add: spec_step_def o_def)
  with f z have step: "\<exists>l'. rankStep g gWin gWout d N l = Some l'
       \<and> map index l' = map index l
       \<and> map prevRank l' = map rank l
       \<and> (\<forall>j<nV g. prevRank_of l' j = rank_of l j)
       \<and> list_all (\<lambda>p. rank p = (1 - d) / N + d *
             (\<Sum>j\<leftarrow>in_neighbours g (index p).
                 prevRank_of l' j * edges gWout j (index p) * edges gWin j (index p))) l'
       \<and> list_all (\<lambda>p. in_neighbours g (index p) = [] \<longrightarrow> rank p = (1 - d) / N) l'"
    using rankStep_eq [OF assms] prevRank_of_spec_step [OF assms(1)] by blast
  have engine: "2 \<le> maxIterations \<longrightarrow>
          (\<exists>l1 mWin mWout lf.
               initialiseRankAndDegree l g (real (nV g)) = Some l1
             \<and> setGraphWin l1 g = Some mWin
             \<and> setGraphWout l1 g = Some mWout
             \<and> calculatePageRank l g d diffPR maxIterations = Some lf
             \<and> list_all (\<lambda>p. rank p = (1 - d) / real (nV g) + d *
                   (\<Sum>j\<leftarrow>in_neighbours g (index p).
                       prevRank_of lf j * edges mWout j (index p) * edges mWin j (index p))) lf)"
    using engine_last_step [OF assms(1)] by (intro impI)
  from step engine show ?thesis ..
qed

theorem C1_rank_update_witness:
  "wf_list example_nodes (nV example_graph)
   \<and> (\<exists>l'. rankStep example_graph example_graph example_graph (1/2) 2 example_nodes = Some l'
         \<and> map index l' = map index example_nodes
         \<and> map prevRank l' = map rank example_nodes)
   \<and> (2::int) \<le> 3
   \<and> (\<exists>lf. calculatePageRank example_nodes example_graph (1/2) (1/1000) 3 = Some lf)"
proof -
  note c = C1_rank_update [OF wf_example refl refl,
      where d = "1/2" and N = 2 and maxIterations = 3 and diffPR = "1/1000"]
  have a: "\<exists>l'. rankStep example_graph example_graph example_graph (1/2) 2 example_nodes = Some l'
         \<and> map index l' = map index example_nodes
         \<and> map prevRank l' = map rank example_nodes"
    using c [THEN conjunct1] by blast
  have b: "\<exists>lf. calculatePageRank example_nodes example_graph (1/2) (1/1000) 3 = Some lf"
    using c [THEN conjunct2] by auto
  from wf_example a b show ?thesis by simp
qed

text \<open>
  Claim C2, as amended. For every well-formed input, every damping factor, every
  threshold \<open>diffPR > 0\<close> and every \<open>maxIterations\<close>, \<open>calculatePageRank\<close> returns after
  some number \<open>k\<close> of steps, the loop counter \<open>i\<close> ending at \<open>1 + k\<close>. If
  \<open>maxIterations \<ge> 2\<close> then \<open>1 \<le> k \<le> maxIterations - 1\<close>; if \<open>maxIterations \<le> 1\<close> then
  \<open>k = 0\<close>. The loop stops because the counter has reached \<open>maxIterations\<close> or the last
  difference is below \<open>diffPR\<close>, and after each earlier step the difference was at least
  \<open>diffPR\<close>; the difference is the sum over the cells of \<open>|rank - prevRank|\<close>, and before
  the first step it is \<open>diffPR\<close> itself.
\<close>

theorem C2_iteration_steps:
  assumes "wf_list l (nV g)" and "0 < diffPR"
  shows "\<exists>l1 gWin gWout k dk l'.
       initialiseRankAndDegree l g (real (nV g)) = Some l1
     \<and> setGraphWin l1 g = Some gWin
     \<and> setGraphWout l1 g = Some gWout
     \<and> calculatePageRankState l g d diffPR maxIterations = Some (1 + int k, dk, l')
     \<and> stepsPerformed l g d diffPR maxIterations = Some (int k)
     \<and> rankSteps k g gWin gWout d (real (nV g)) l1 = Some l'
     \<and> (2 \<le> maxIterations \<longrightarrow> 1 \<le> k \<and> int k \<le> maxIterations - 1)
     \<and> (maxIterations \<le> 1 \<longrightarrow> k = 0)
     \<and> dk = (if k = 0 then diffPR else calculateDiff l')
     \<and> (maxIterations \<le> 1 + int k \<or> dk < diffPR)
     \<and> (\<forall>m. 0 < m \<and> m < k \<longrightarrow>
           (\<exists>lm. rankSteps m g gWin gWout d (real (nV g)) l1 = Some lm
                 \<and> diffPR \<le> calculateDiff lm))
     \<and> calculateDiff l' = (\<Sum>p\<leftarrow>l'. \<bar>rank p - prevRank p\<bar>)"
proof -
  obtain l1 gWin gWout k dk l' where run:
    "initialiseRankAndDegree l g (real (nV g)) = Some l1"
    "setGraphWin l1 g = Some gWin"
    "setGraphWout l1 g = Some gWout"
    "calculatePageRankState l g d diffPR maxIterations = Some (1 + int k, dk, l')"
    "rankSteps k g gWin gWout d (real (nV g)) l1 = Some l'"
    "dk = (if k = 0 then diffPR else calculateDiff l')"
    "maxIterations \<le> 1 + int k \<or> dk < diffPR"
    "0 < k \<longrightarrow> int k < maxIterations"
    "\<forall>m. 0 < m \<and> m < k \<longrightarrow>
           (\<exists>lm. rankSteps m g gWin gWout d (real (nV g)) l1 = Some lm
                 \<and> diffPR \<le> calculateDiff lm)"
    using engine_run [OF assms(1), of d diffPR maxIterations] by blast
  have steps: "stepsPerformed l g d diffPR maxIterations = Some (int k)"
    by (simp add: stepsPerformed_def run(4))
  have least: "2 \<le> maxIterations \<longrightarrow> 1 \<le> k \<and> int k \<le> maxIterations - 1"
    using run(6,7,8) by (cases "k = 0") auto
  have none: "maxIterations \<le> 1 \<longrightarrow> k = 0"
    using run(8) by (cases "k = 0") auto
  show ?thesis
    using run(1-7,9) steps least none calculateDiff_eq [of l'] by blast
qed

theorem C2_iteration_steps_witness:
  "wf_list example_nodes (nV example_graph) \<and> (0::real) < 1/1000
   \<and> (\<exists>k. stepsPerformed example_nodes example_graph (1/2) (1/1000) 100 = Some (int k)
          \<and> 1 \<le> k \<and> int k \<le> 100 - 1)"
proof -
  have h: "(0::real) < 1/1000" by simp
  show ?thesis
    using C2_iteration_steps [OF wf_example h, of "1/2" 100] wf_example
    by auto
qed

theorem C2_counterexample:
  "(0::real) < 1/1000
   \<and> stepsPerformed example_nodes example_graph (1/2) (1/1000) 1 = Some 0
   \<and> \<not> (1 \<le> (0::int))"
  by code_simp

text \<open>
  Claim C3. After the initialisation of the degrees, \<open>setGraphWout\<close> succeeds and, for
  every edge \<open>j \<rightarrow> i\<close> of the graph with \<open>j \<noteq> i\<close>, stores
  \<open>Wout[j][i] = effOut i / (sum of effOut k over the nodes k with an edge j \<rightarrow> k)\<close>, the
  denominator being replaced by 0.5 when that sum is 0; \<open>effOut x\<close> is the out-degree of
  \<open>x\<close> if it is not 0, and 0.5 otherwise, in the numerator and in every term of the sum.
\<close>

theorem C3_Wout_formula:
  assumes "wf_list l (nV g)"
  shows "\<exists>l1 gWout. initialiseRankAndDegree l g (real (nV g)) = Some l1
       \<and> setGraphWout l1 g = Some gWout
       \<and> (\<forall>j i. j < nV g \<and> i < nV g \<and> edges g j i \<noteq> 0 \<and> j \<noteq> i \<longrightarrow>
             edges gWout j i =
               effOut g i /
                 (let s = (\<Sum>k\<leftarrow>out_neighbours g j. effOut g k) in if s = 0 then 0.5 else s))
       \<and> (\<forall>x. effOut g x = (if out_degree g x = 0 then 0.5 else real (out_degree g x)))"
proof -
  have "setGraphWout (map (spec_init g) l) g = Some (spec_weights g (spec_Wout g))"
    by (rule setGraphWout_eq [OF init_wf(2) [OF assms] degrees_set_init])
  moreover have "\<forall>j i. j < nV g \<and> i < nV g \<and> edges g j i \<noteq> 0 \<and> j \<noteq> i \<longrightarrow>
             edges (spec_weights g (spec_Wout g)) j i =
               effOut g i /
                 (let s = (\<Sum>k\<leftarrow>out_neighbours g j. effOut g k) in if s = 0 then 0.5 else s)"
    by (simp add: spec_weights_def spec_Wout_def)
  ultimately show ?thesis
    using init_wf(1) [OF assms] by (simp add: effOut_def)
qed

theorem C3_Wout_formula_witness:
  "wf_list example_nodes (nV example_graph)
   \<and> (\<exists>l1 gWout. initialiseRankAndDegree example_nodes example_graph (real (nV example_graph)) = Some l1
       \<and> setGraphWout l1 example_graph = Some gWout
       \<and> edges gWout 0 1 = 1)"
proof -
  obtain l1 gWout where e: "initialiseRankAndDegree example_nodes example_graph (real (nV example_graph)) = Some l1"
       "setGraphWout l1 example_graph = Some gWout"
       "\<forall>j i. j < nV example_graph \<and> i < nV example_graph \<and> edges example_graph j i \<noteq> 0 \<and> j \<noteq> i \<longrightarrow>
             edges gWout j i =
               effOut example_graph i /
                 (let s = (\<Sum>k\<leftarrow>out_neighbours example_graph j. effOut example_graph k) in if s = 0 then 0.5 else s)"
    using C3_Wout_formula [OF wf_example] by blast
  have "edges gWout 0 1 = effOut example_graph 1 /
                 (let s = (\<Sum>k\<leftarrow>out_neighbours example_graph 0. effOut example_graph k) in if s = 0 then 0.5 else s)"
    using e(3) by (simp add: example_graph_def)
  also have "\<dots> = 1"
    by (simp add: example_out0 example_out1 effOut_def out_degree_def)
  finally show ?thesis
    using e wf_example by blast
qed

text \<open>
  Claim C4. After the initialisation of the degrees, \<open>setGraphWin\<close> succeeds and, for
  every edge \<open>j \<rightarrow> i\<close> of the graph with \<open>j \<noteq> i\<close>, stores
  \<open>Win[j][i] = inDegree i / (sum of inDegree k over the nodes k with an edge j \<rightarrow> k)\<close>.
  Both matrices are computed once, from the graph and the degrees, before the loop; the
  result of \<open>calculatePageRank\<close> is that of some number \<open>k\<close> of steps, all of them run with
  these two matrices.
\<close>

theorem C4_Win_formula:
  assumes "wf_list l (nV g)"
  shows "\<exists>l1 gWin gWout. initialiseRankAndDegree l g (real (nV g)) = Some l1
       \<and> setGraphWin l1 g = Some gWin
       \<and> setGraphWout l1 g = Some gWout
       \<and> (\<forall>j i. j < nV g \<and> i < nV g \<and> edges g j i \<noteq> 0 \<and> j \<noteq> i \<longrightarrow>
             edges gWin j i =
               real (in_degree g i) / (\<Sum>k\<leftarrow>out_neighbours g j. real (in_degree g k)))
       \<and> (\<exists>k. calculatePageRank l g d diffPR maxIterations
                = rankSteps k g gWin gWout d (real (nV g)) l1)"
proof -
  let ?l1 = "map (spec_init g) l"
  let ?gWin = "spec_weights g (spec_Win g)"
  let ?gWout = "spec_weights g (spec_Wout g)"
  have wf1: "wf_list ?l1 (nV g)"
    by (rule init_wf(2) [OF assms])
  have win: "setGraphWin ?l1 g = Some ?gWin"
    by (rule setGraphWin_eq [OF wf1 degrees_set_init])
  have wout: "setGraphWout ?l1 g = Some ?gWout"
    by (rule setGraphWout_eq [OF wf1 degrees_set_init])
  have formula: "\<forall>j i. j < nV g \<and> i < nV g \<and> edges g j i \<noteq> 0 \<and> j \<noteq> i \<longrightarrow>
             edges ?gWin j i =
               real (in_degree g i) / (\<Sum>k\<leftarrow>out_neighbours g j. real (in_degree g k))"
    by (simp add: spec_weights_def spec_Win_def)
  obtain k where "calculatePageRankState l g d diffPR maxIterations
              = Some (1 + int k,
                  diff_after (spec_step g ?gWin ?gWout d (real (nV g))) diffPR ?l1 k,
                  (spec_step g ?gWin ?gWout d (real (nV g)) ^^ k) ?l1)"
    using calculatePageRankState_trace [OF assms] by blast
  then have "calculatePageRank l g d diffPR maxIterations
                = rankSteps k g ?gWin ?gWout d (real (nV g)) ?l1"
    by (simp add: calculatePageRank_def rankSteps_eq [OF wf1] spec_weights_def)
  with win wout formula init_wf(1) [OF assms] show ?thesis by blast
qed

theorem C4_Win_formula_witness:
  "wf_list example_nodes (nV example_graph)
   \<and> (\<exists>l1 gWin. initialiseRankAndDegree example_nodes example_graph (real (nV example_graph)) = Some l1
       \<and> setGraphWin l1 example_graph = Some gWin
       \<and> edges gWin 0 1 = 1)"
proof -
  obtain l1 gWin where e: "initialiseRankAndDegree example_nodes example_graph (real (nV example_graph)) = Some l1"
       "setGraphWin l1 example_graph = Some gWin"
       "\<forall>j i. j < nV example_graph \<and> i < nV example_graph \<and> edges example_graph j i \<noteq> 0 \<and> j \<noteq> i \<longrightarrow>
             edges gWin j i =
               real (in_degree example_graph i) /
                 (\<Sum>k\<leftarrow>out_neighbours example_graph j. real (in_degree example_graph k))"
    using C4_Win_formula [OF wf_example] by blast
  have "edges gWin 0 1 = real (in_degree example_graph 1) /
                 (\<Sum>k\<leftarrow>out_neighbours example_graph 0. real (in_degree example_graph k))"
    using e(3) by (simp add: example_graph_def)
  also have "\<dots> = 1"
    by (simp add: example_out0 example_in1 in_degree_def)
  finally show ?thesis
    using e wf_example by blast
qed

text \<open>
  Claim C5, as amended. \<open>calculatePageRank\<close> checks none of its parameters. On a
  well-formed input with \<open>N \<ge> 1\<close> nodes it returns a rank vector for every
  \<open>maxIterations\<close> and every \<open>diffPR\<close>. If \<open>maxIterations \<le> 1\<close> no step is performed and
  the result is the list as initialised, every rank being \<open>1 / N\<close>. If \<open>diffPR \<le> 0\<close> and
  \<open>maxIterations \<ge> 1\<close>, exactly \<open>maxIterations - 1\<close> steps are performed.
\<close>

theorem C5_no_configuration_check:
  assumes "wf_list l (nV g)" and "0 < nV g"
  shows "(\<exists>l'. calculatePageRank l g d diffPR maxIterations = Some l'
             \<and> map index l' = map index l)
       \<and> (maxIterations \<le> 1 \<longrightarrow>
            stepsPerformed l g d diffPR maxIterations = Some 0
          \<and> calculatePageRank l g d diffPR maxIterations
              = initialiseRankAndDegree l g (real (nV g))
          \<and> (\<exists>l'. calculatePageRank l g d diffPR maxIterations = Some l'
                \<and> list_all (\<lambda>p. rank p = 1 / real (nV g)) l'))
       \<and> (diffPR \<le> 0 \<and> 1 \<le> maxIterations \<longrightarrow>
            stepsPerformed l g d diffPR maxIterations = Some (maxIterations - 1))"
proof -
  obtain l1 gWin gWout k dk l' where run:
    "initialiseRankAndDegree l g (real (nV g)) = Some l1"
    "l1 = map (spec_init g) l"
    "wf_list l1 (nV g)"
    "calculatePageRankState l g d diffPR maxIterations = Some (1 + int k, dk, l')"
    "rankSteps k g gWin gWout d (real (nV g)) l1 = Some l'"
    "dk = (if k = 0 then diffPR else calculateDiff l')"
    "maxIterations \<le> 1 + int k \<or> dk < diffPR"
    "0 < k \<longrightarrow> int k < maxIterations"
    "nV gWin = nV g" "nV gWout = nV g"
    using engine_run [OF assms(1), of d diffPR maxIterations] by blast
  have res: "calculatePageRank l g d diffPR maxIterations = Some l'"
    by (simp add: calculatePageRank_def run(4))
  have steps: "stepsPerformed l g d diffPR maxIterations = Some (int k)"
    by (simp add: stepsPerformed_def run(4))
  have "l' = (spec_step g gWin gWout d (real (nV g)) ^^ k) l1"
    using run(5) rankSteps_eq [OF run(3) run(9,10), of k d "real (nV g)"] by simp
  then have "map index l' = map index l1"
    by (simp add: index_funpow_step)
  then have idx: "map index l' = map index l"
    by (simp add: run(2) spec_init_def o_def)
  have small: "maxIterations \<le> 1 \<longrightarrow>
            stepsPerformed l g d diffPR maxIterations = Some 0
          \<and> calculatePageRank l g d diffPR maxIterations
              = initialiseRankAndDegree l g (real (nV g))
          \<and> (\<exists>l'. calculatePageRank l g d diffPR maxIterations = Some l'
                \<and> list_all (\<lambda>p. rank p = 1 / real (nV g)) l')"
  proof
    assume "maxIterations \<le> 1"
    with run(8) have k0: "k = 0" by (cases "k = 0") auto
    with run(5) have l': "l' = l1" by simp
    have "list_all (\<lambda>p. rank p = 1 / real (nV g)) l1"
      by (simp add: run(2) list_all_iff spec_init_def)
    with k0 l' res steps run(1)
    show "stepsPerformed l g d diffPR maxIterations = Some 0
          \<and> calculatePageRank l g d diffPR maxIterations
              = initialiseRankAndDegree l g (real (nV g))
          \<and> (\<exists>l'. calculatePageRank l g d diffPR maxIterations = Some l'
                \<and> list_all (\<lambda>p. rank p = 1 / real (nV g)) l')"
      by simp
  qed
  have nonpos: "diffPR \<le> 0 \<and> 1 \<le> maxIterations \<longrightarrow>
            stepsPerformed l g d diffPR maxIterations = Some (maxIterations - 1)"
  proof
    assume a: "diffPR \<le> 0 \<and> 1 \<le> maxIterations"
    have "diffPR \<le> dk"
      using a run(6) calculateDiff_nonneg [of l'] by (cases "k = 0") auto
    with run(7) have "maxIterations \<le> 1 + int k" by auto
    moreover have "int k \<le> maxIterations - 1"
      using run(8) a by (cases "k = 0") auto
    ultimately have "int k = maxIterations - 1" by simp
    with steps show "stepsPerformed l g d diffPR maxIterations = Some (maxIterations - 1)"
      by simp
  qed
  from res idx small nonpos show ?thesis by blast
qed

theorem C5_no_configuration_check_witness:
  "wf_list example_nodes (nV example_graph) \<and> 0 < nV example_graph
   \<and> (0::int) \<le> 1
   \<and> stepsPerformed example_nodes example_graph (1/2) (1/1000) 0 = Some 0
   \<and> (- 1 :: real) \<le> 0 \<and> (1::int) \<le> 3
   \<and> stepsPerformed example_nodes example_graph (1/2) (- 1) 3 = Some 2"
proof -
  have h: "0 < nV example_graph" by (simp add: example_graph_def)
  show ?thesis
    using C5_no_configuration_check [OF wf_example h, of "1/2" "1/1000" 0]
      C5_no_configuration_check [OF wf_example h, of "1/2" "- 1" 3] wf_example h
    by simp
qed

theorem C5_counterexample:
  "(0::int) \<le> 0
   \<and> calculatePageRank example_nodes example_graph (1/2) (1/1000) 0 =
       Some [\<lparr>url = ''a'', index = 0, rank = 1 / 2, prevRank = 0, inDegree = 0, outDegree = 1\<rparr>,
             \<lparr>url = ''b'', index = 1, rank = 1 / 2, prevRank = 0, inDegree = 1, outDegree = 0\<rparr>]
   \<and> (- 1 :: real) \<le> 0
   \<and> calculatePageRank example_nodes example_graph (1/2) (- 1) 2 =
       Some [\<lparr>url = ''a'', index = 0, rank = 1 / 4, prevRank = 1 / 2, inDegree = 0, outDegree = 1\<rparr>,
             \<lparr>url = ''b'', index = 1, rank = 1 / 2, prevRank = 1 / 2, inDegree = 1, outDegree = 0\<rparr>]"
  by code_simp

text \<open>
  Claim C6. Within one iteration step every new rank is computed from the snapshot of the
  previous ranks alone. The first inner loop copies the whole rank vector into \<open>prevRank\<close>
  (and leaves \<open>rank\<close> as it was); the second inner loop, which overwrites the cells of the
  list one after the other while \<open>getPageWeight\<close> reads that same list, returns what the
  pure map over the snapshot returns, every weight being read from the \<open>prevRank\<close> values
  of the snapshot; so the step of the source is the functional step \<open>spec_step\<close> from the
  old rank vector to the new one. The node list is well formed: its indices are the
  numbers below \<open>nV g\<close>, each once, in any order; the two matrices have the vertices of
  the graph.
\<close>

theorem C6_snapshot_refinement:
  assumes "wf_list l (nV g)" and "nV gWin = nV g" and "nV gWout = nV g"
  shows "map prevRank (storePrevRank l) = map rank l
       \<and> map rank (storePrevRank l) = map rank l
       \<and> updateRank (storePrevRank l) g gWin gWout d N =
           Some (map (\<lambda>p. p\<lparr>rank := (1 - d) / N
                   + d * spec_weight g gWin gWout (prevRank_of (storePrevRank l)) (index p)\<rparr>)
                 (storePrevRank l))
       \<and> rankStep g gWin gWout d N l = Some (spec_step g gWin gWout d N l)"
proof -
  have wf': "wf_list (storePrevRank l) (nV g)"
    unfolding storePrevRank_def by (rule wf_list_map [OF assms(1)]) simp
  show ?thesis
    using updateRank_eq [OF wf' assms(2,3)] rankStep_eq [OF assms]
    by (simp add: storePrevRank_def o_def)
qed

theorem C6_snapshot_refinement_witness:
  "wf_list example_nodes (nV example_graph)
   \<and> rankStep example_graph example_graph example_graph (1/2) 2 example_nodes
       = Some (spec_step example_graph example_graph example_graph (1/2) 2 example_nodes)"
  using C6_snapshot_refinement [OF wf_example refl refl] wf_example by simp

text \<open>
  Claim C7. On a graph with \<open>N \<ge> 1\<close> nodes, \<open>initialiseRankAndDegree\<close> succeeds, keeps
  the indices, and sets in every cell the rank to \<open>1 / N\<close>, the in-degree to the number of
  nodes with an edge to the cell's node and the out-degree to the number of nodes its
  node has an edge to, both counted in the graph it is given; so the initial ranks sum to
  1. \<open>calculatePageRank\<close> builds Win and Wout from the list so initialised, and starts its
  loop with it.
\<close>

theorem C7_initialisation:
  assumes "wf_list l (nV g)" and "0 < nV g"
  shows "\<exists>l1. initialiseRankAndDegree l g (real (nV g)) = Some l1
       \<and> map index l1 = map index l
       \<and> list_all (\<lambda>p. rank p = 1 / real (nV g)
                      \<and> inDegree p = real (in_degree g (index p))
                      \<and> outDegree p = real (out_degree g (index p))) l1
       \<and> (\<Sum>p\<leftarrow>l1. rank p) = 1
       \<and> calculatePageRankState l g d diffPR maxIterations =
           do { gWin \<leftarrow> setGraphWin l1 g;
                gWout \<leftarrow> setGraphWout l1 g;
                pageRankLoop g gWin gWout d (real (nV g)) diffPR maxIterations 1 diffPR l1 }"
proof -
  let ?l1 = "map (spec_init g) l"
  have init: "initialiseRankAndDegree l g (real (nV g)) = Some ?l1"
    by (rule init_wf(1) [OF assms(1)])
  have len: "length l = nV g"
    using assms(1) by (simp add: wf_list_def)
  have "(\<Sum>p\<leftarrow>?l1. rank p) = real (length l) / real (nV g)"
    by (rule sum_list_rank_init)
  then have sum: "(\<Sum>p\<leftarrow>?l1. rank p) = 1"
    using len assms(2) by simp
  have idx: "map index ?l1 = map index l"
    by (simp add: spec_init_def)
  have fields: "list_all (\<lambda>p. rank p = 1 / real (nV g)
                      \<and> inDegree p = real (in_degree g (index p))
                      \<and> outDegree p = real (out_degree g (index p))) ?l1"
    by (simp add: list_all_iff spec_init_def)
  have "calculatePageRankState l g d diffPR maxIterations =
           do { gWin \<leftarrow> setGraphWin ?l1 g;
                gWout \<leftarrow> setGraphWout ?l1 g;
                pageRankLoop g gWin gWout d (real (nV g)) diffPR maxIterations 1 diffPR ?l1 }"
    by (simp add: calculatePageRankState_def init)
  with init idx fields sum show ?thesis by blast
qed

theorem C7_initialisation_witness:
  "wf_list example_nodes (nV example_graph) \<and> 0 < nV example_graph
   \<and> (\<exists>l1. initialiseRankAndDegree example_nodes example_graph (real (nV example_graph)) = Some l1
         \<and> map rank l1 = [1 / 2, 1 / 2]
         \<and> (\<Sum>p\<leftarrow>l1. rank p) = 1)"
proof -
  have h: "0 < nV example_graph" by (simp add: example_graph_def)
  obtain l1 where l1:
    "initialiseRankAndDegree example_nodes example_graph (real (nV example_graph)) = Some l1"
    "map index l1 = map index example_nodes"
    "list_all (\<lambda>p. rank p = 1 / real (nV example_graph)
                      \<and> inDegree p = real (in_degree example_graph (index p))
                      \<and> outDegree p = real (out_degree example_graph (index p))) l1"
    "(\<Sum>p\<leftarrow>l1. rank p) = 1"
    using C7_initialisation [OF wf_example h] by blast
  from l1(2) have "length l1 = 2"
    using map_eq_imp_length_eq [OF l1(2)] by (simp add: example_nodes_def)
  then obtain a b where ab: "l1 = [a, b]"
    by (metis (no_types, opaque_lifting) length_0_conv length_Suc_conv numeral_2_eq_2)
  with l1(3) have "map rank l1 = [1 / 2, 1 / 2]"
    by (simp add: example_graph_def)
  with l1(1,4) wf_example h show ?thesis
    by - (intro conjI exI [of _ l1], assumption+)
qed

text \<open>
  Claim C8. For every edge \<open>j \<rightarrow> i\<close> of the graph, the denominator of the division of
  \<open>calculateWin\<close> (the local \<open>pjTotalIncomingLinks\<close> after its loop, for the cell of
  index \<open>j\<close>) is the sum of the in-degrees of the out-neighbours of \<open>j\<close> and is at least
  1: \<open>i\<close> is one of these out-neighbours, and the edge from \<open>j\<close> gives it an in-degree of
  at least 1. The division never has the denominator 0.
\<close>

theorem C8_Win_denominator:
  assumes "wf_list l (nV g)" and "j < nV g" and "i < nV g" and "edges g j i \<noteq> 0"
  shows "\<exists>l1 pj total. initialiseRankAndDegree l g (real (nV g)) = Some l1
       \<and> getNode l1 j = Some pj
       \<and> pjTotalIncomingLinks l1 g pj = Some total
       \<and> total = (\<Sum>k\<leftarrow>out_neighbours g j. real (in_degree g k))
       \<and> 1 \<le> in_degree g i
       \<and> 1 \<le> total"
proof -
  let ?l1 = "map (spec_init g) l"
  have wf1: "wf_list ?l1 (nV g)"
    by (rule init_wf(2) [OF assms(1)])
  obtain pj where pj: "getNode ?l1 j = Some pj" "index pj = j"
    using getNode_wf [OF wf1 assms(2)] by blast
  have "pjTotalIncomingLinks ?l1 g pj
          = Some (\<Sum>k\<leftarrow>out_neighbours g j. real (in_degree g k))"
    using pjTotalIncomingLinks_eq [OF wf1 degrees_set_init, of pj] pj(2) assms(2) by simp
  then show ?thesis
    using init_wf(1) [OF assms(1)] pj(1) in_degree_pos [OF assms(2,4)]
      Win_denominator_pos [OF assms(2,3,4)]
    by blast
qed

theorem C8_Win_denominator_witness:
  "wf_list example_nodes (nV example_graph) \<and> 0 < nV example_graph \<and> 1 < nV example_graph
   \<and> edges example_graph 0 1 \<noteq> 0
   \<and> (\<exists>l1 pj total.
         initialiseRankAndDegree example_nodes example_graph (real (nV example_graph)) = Some l1
       \<and> getNode l1 0 = Some pj
       \<and> pjTotalIncomingLinks l1 example_graph pj = Some total
       \<and> 1 \<le> total)"
proof -
  have h: "0 < nV example_graph" "1 < nV example_graph" "edges example_graph 0 1 \<noteq> 0"
    by (simp_all add: example_graph_def)
  show ?thesis
    using C8_Win_denominator [OF wf_example h] wf_example h by blast
qed

text \<open>
  Claim C9. For a graph of two nodes whose only edge is \<open>0 \<rightarrow> 1\<close>, the matrices computed
  after the initialisation have \<open>Win[0][1] = 1\<close> and \<open>Wout[0][1] = 1\<close>; node 1 has
  out-degree 0, so that its effective out-degree is the fallback 0.5, in the numerator
  and in the denominator of \<open>Wout[0][1]\<close>.
\<close>

theorem C9_two_nodes:
  assumes "wf_list l (nV g)" and "nV g = 2"
    and "edges g 0 1 \<noteq> 0" and "edges g 0 0 = 0" and "edges g 1 0 = 0" and "edges g 1 1 = 0"
  shows "\<exists>l1 gWin gWout. initialiseRankAndDegree l g (real (nV g)) = Some l1
       \<and> setGraphWin l1 g = Some gWin
       \<and> setGraphWout l1 g = Some gWout
       \<and> edges gWin 0 1 = 1
       \<and> edges gWout 0 1 = 1
       \<and> out_degree g 1 = 0
       \<and> effOut g 1 = 0.5"
proof -
  let ?l1 = "map (spec_init g) l"
  have wf1: "wf_list ?l1 (nV g)"
    by (rule init_wf(2) [OF assms(1)])
  have win: "setGraphWin ?l1 g = Some (spec_weights g (spec_Win g))"
    by (rule setGraphWin_eq [OF wf1 degrees_set_init])
  have wout: "setGraphWout ?l1 g = Some (spec_weights g (spec_Wout g))"
    by (rule setGraphWout_eq [OF wf1 degrees_set_init])
  have upt2: "[0..<2] = [0, Suc 0]"
    by (simp add: upt_rec)
  have out0: "out_neighbours g 0 = [1]"
    using assms(2-6) by (simp add: out_neighbours_def upt2)
  have out1: "out_neighbours g (Suc 0) = []"
    using assms(2-6) by (simp add: out_neighbours_def upt2)
  have in1: "in_neighbours g (Suc 0) = [0]"
    using assms(2-6) by (simp add: in_neighbours_def upt2)
  have eff: "effOut g (Suc 0) = 0.5"
    by (simp add: effOut_def out_degree_def out1)
  have "edges (spec_weights g (spec_Win g)) 0 1 = 1"
    using assms(2,3) by (simp add: spec_weights_def spec_Win_def out0 in_degree_def in1)
  moreover have "edges (spec_weights g (spec_Wout g)) 0 1 = 1"
    using assms(2,3) by (simp add: spec_weights_def spec_Wout_def out0 eff)
  moreover have "out_degree g 1 = 0"
    by (simp add: out_degree_def out1)
  ultimately show ?thesis
    using init_wf(1) [OF assms(1)] win wout eff by simp
qed

theorem C9_two_nodes_witness:
  "wf_list example_nodes (nV example_graph) \<and> nV example_graph = 2
   \<and> edges example_graph 0 1 \<noteq> 0 \<and> edges example_graph 0 0 = 0
   \<and> edges example_graph 1 0 = 0 \<and> edges example_graph 1 1 = 0
   \<and> (\<exists>l1 gWin gWout.
         initialiseRankAndDegree example_nodes example_graph (real (nV example_graph)) = Some l1
       \<and> setGraphWin l1 example_graph = Some gWin
       \<and> setGraphWout l1 example_graph = Some gWout
       \<and> edges gWin 0 1 = 1
       \<and> edges gWout 0 1 = 1)"
proof -
  have h: "nV example_graph = 2" "edges example_graph 0 1 \<noteq> 0" "edges example_graph 0 0 = 0"
    "edges example_graph 1 0 = 0" "edges example_graph 1 1 = 0"
    by (simp_all add: example_graph_def)
  show ?thesis
    using C9_two_nodes [OF wf_example h] wf_example h by blast
qed

text \<open>
  Claim C10. \<open>insertEdges\<close> skips every link whose target index is the index of the
  current cell. When every file can be opened, \<open>createGraph\<close> returns a graph (no
  insertion of a self-loop is attempted) whose diagonal is 0, and the matrices
  \<open>setGraphWin\<close> and \<open>setGraphWout\<close> compute from it have the diagonal 0 as well. The
  two matrices have the diagonal 0 for every graph \<open>g'\<close> on the nodes of the list, also
  one that has self-loops. The three structures are not written after their construction.
\<close>

theorem C10_no_self_loops:
  assumes "wf_list l (length l)" and "list_all (\<lambda>p. files (url p) \<noteq> None) l"
    and "wf_list l (nV g')"
  shows "(\<exists>g l1 gWin gWout.
            createGraph l files = Some g
          \<and> nV g = length l
          \<and> initialiseRankAndDegree l g (real (nV g)) = Some l1
          \<and> setGraphWin l1 g = Some gWin
          \<and> setGraphWout l1 g = Some gWout
          \<and> (\<forall>i. edges g i i = 0 \<and> edges gWin i i = 0 \<and> edges gWout i i = 0))
       \<and> (\<forall>g0 u toks cur. u \<noteq> ''#end'' \<and> getUrlIndex l u = int (index cur) \<longrightarrow>
            insertEdges g0 l (u # toks) cur = insertEdges g0 l toks cur)
       \<and> (\<exists>l1 gWin gWout.
            initialiseRankAndDegree l g' (real (nV g')) = Some l1
          \<and> setGraphWin l1 g' = Some gWin
          \<and> setGraphWout l1 g' = Some gWout
          \<and> (\<forall>i. edges gWin i i = 0 \<and> edges gWout i i = 0))"
proof -
  have matrices: "\<exists>l1 gWin gWout.
            initialiseRankAndDegree l h (real (nV h)) = Some l1
          \<and> setGraphWin l1 h = Some gWin
          \<and> setGraphWout l1 h = Some gWout
          \<and> (\<forall>i. edges gWin i i = 0 \<and> edges gWout i i = 0)"
    if wfh: "wf_list l (nV h)" for h
  proof -
    have wf1: "wf_list (map (spec_init h) l) (nV h)"
      by (rule init_wf(2) [OF wfh])
    have "\<forall>i. edges (spec_weights h (spec_Win h)) i i = 0
            \<and> edges (spec_weights h (spec_Wout h)) i i = 0"
      by (simp add: spec_weights_def)
    then show ?thesis
      using init_wf(1) [OF wfh] setGraphWin_eq [OF wf1 degrees_set_init]
        setGraphWout_eq [OF wf1 degrees_set_init]
      by blast
  qed
  have "list_all (\<lambda>p. index p < length l) l"
    using assms(1) by (simp add: wf_list_def)
  then obtain g where g: "createGraph l files = Some g" "nV g = length l" "\<forall>i. edges g i i = 0"
    using createGraph_diagonal [OF _ assms(2)] by blast
  have "wf_list l (nV g)"
    using assms(1) g(2) by simp
  from matrices [OF this] g have first: "\<exists>g l1 gWin gWout.
            createGraph l files = Some g
          \<and> nV g = length l
          \<and> initialiseRankAndDegree l g (real (nV g)) = Some l1
          \<and> setGraphWin l1 g = Some gWin
          \<and> setGraphWout l1 g = Some gWout
          \<and> (\<forall>i. edges g i i = 0 \<and> edges gWin i i = 0 \<and> edges gWout i i = 0)"
    by blast
  have discard: "\<forall>g0 u toks cur. u \<noteq> ''#end'' \<and> getUrlIndex l u = int (index cur) \<longrightarrow>
            insertEdges g0 l (u # toks) cur = insertEdges g0 l toks cur"
    by (simp add: Let_def)
  from first discard matrices [OF assms(3)] show ?thesis
    by - (intro conjI, assumption+)
qed

theorem C10_no_self_loops_witness:
  "wf_list example_nodes (length example_nodes)
   \<and> list_all (\<lambda>p. example_files (url p) \<noteq> None) example_nodes
   \<and> wf_list example_nodes (nV example_graph)
   \<and> (\<exists>g l1 gWin gWout.
            createGraph example_nodes example_files = Some g
          \<and> initialiseRankAndDegree example_nodes g (real (nV g)) = Some l1
          \<and> setGraphWin l1 g = Some gWin
          \<and> setGraphWout l1 g = Some gWout
          \<and> edges g 0 0 = 0 \<and> edges gWin 0 0 = 0 \<and> edges gWout 0 0 = 0)"
proof -
  have h1: "wf_list example_nodes (length example_nodes)"
    by (simp add: wf_list_def example_nodes_def)
  have h2: "list_all (\<lambda>p. example_files (url p) \<noteq> None) example_nodes"
    by (simp add: example_nodes_def example_files_def)
  obtain g l1 gWin gWout where e:
    "createGraph example_nodes example_files = Some g"
    "initialiseRankAndDegree example_nodes g (real (nV g)) = Some l1"
    "setGraphWin l1 g = Some gWin"
    "setGraphWout l1 g = Some gWout"
    "\<forall>i. edges g i i = 0 \<and> edges gWin i i = 0 \<and> edges gWout i i = 0"
    using C10_no_self_loops [OF h1 h2 wf_example, THEN conjunct1] by blast
  from e(5) have "edges g 0 0 = 0 \<and> edges gWin 0 0 = 0 \<and> edges gWout 0 0 = 0" ..
  with e(1-4) have "\<exists>g l1 gWin gWout.
            createGraph example_nodes example_files = Some g
          \<and> initialiseRankAndDegree example_nodes g (real (nV g)) = Some l1
          \<and> setGraphWin l1 g = Some gWin
          \<and> setGraphWout l1 g = Some gWout
          \<and> edges g 0 0 = 0 \<and> edges gWin 0 0 = 0 \<and> edges gWout 0 0 = 0"
    by (intro exI [of _ g] exI [of _ l1] exI [of _ gWin] exI [of _ gWout]) simp
  with h1 h2 wf_example show ?thesis
    by - (intro conjI, assumption+)
qed

end
